theory Spec2Isabelle
  imports Complex_Main "HOL-Library.Sublist"
begin

section \<open>The L-system model\<close>

text \<open>
  The parser of \<^verbatim>\<open>lsys/LSystemParser.cpp\<close> is a Boost.Spirit Qi grammar. Its rules are
  embedded one by one as functions from the remaining input to a parse result.
  Characters are the bytes of a \<^verbatim>\<open>std::string\<close>; the newline is \<open>CHR 0x0A\<close>.
\<close>

abbreviation NL :: char where
  "NL \<equiv> CHR 0x0A"

text \<open>
  Modelled from the spec: the header \<^verbatim>\<open>lsys/LSystem.hpp\<close> (the rule classes, the
  comparator \<^verbatim>\<open>RuleComparator\<close> of the production map and the struct \<^verbatim>\<open>LSystem\<close>).
  A rule is one of the two built-in singletons or a word; two words are equal iff
  their texts are equal, the singletons are equal only to themselves, so that the
  comparator identifies exactly the equal values of this datatype.
\<close>

datatype Rule = MoveForwardRule | JumpForwardRule | WordRule string

text \<open>
  A \<^verbatim>\<open>double\<close> is modelled by the exact value its literal denotes (rounding to
  binary64 is not modelled), or an infinity with its sign, or a NaN.
\<close>

datatype double = Finite rat | Infinity bool | NaN

type_synonym Rules = "Rule list"

type_synonym Productions = "(double \<times> Rules) list"

type_synonym ProductionPair = "Rule \<times> Productions"

type_synonym ProductionMap = "Rule \<rightharpoonup> Productions"

record LSystem =
  generations :: int
  angle :: double
  scale :: double
  axiom :: Rules
  productions :: ProductionMap

text \<open>The helper structure \<^verbatim>\<open>Production\<close> of the parser.\<close>

record Production =
  predcessor :: Rule
  probability :: double
  successor :: Rules

definition forward :: Rule where
  "forward = MoveForwardRule"

definition jump :: Rule where
  "jump = JumpForwardRule"

section \<open>Parse results\<close>

text \<open>
  What a component reports when it is expected and missing (\<^verbatim>\<open>boost::spirit::info\<close>):
  a tag, a tag with a text value, or a tag around the description of a subject.
\<close>

datatype info = Info string | InfoValue string string | InfoSubject string info

text \<open>
  The stream output of an \<^verbatim>\<open>info\<close>: a tag without value prints as \<^verbatim>\<open><tag>\<close>, a value
  prints between double quotes, a wrapped subject prints as the subject.
\<close>

fun print_info :: "info \<Rightarrow> string" where
  "print_info (Info t) = ''<'' @ t @ ''>''"
| "print_info (InfoValue t v) =
     (if v = [] then ''<'' @ t @ ''>'' else [CHR 0x22] @ v @ [CHR 0x22])"
| "print_info (InfoSubject t i) = print_info i"

text \<open>
  A parser either matches, giving its attribute and the rest of the input, or fails,
  leaving the iterator at the given position, or throws an
  \<^verbatim>\<open>expectation_failure\<close> that carries the position and the description of what
  was expected there.
\<close>

datatype 'a result = Match 'a string | Fail string | Throw string info

text \<open>
  A component after the first one of a sequence built with the expectation operator:
  where it fails, the sequence throws, with the position the component left.
\<close>

definition expect :: "'a result \<Rightarrow> info \<Rightarrow> 'a result" where
  "expect r what = (case r of Fail p \<Rightarrow> Throw p what | _ \<Rightarrow> r)"

text \<open>Continuing a sequence after a component that matched.\<close>

definition and_then :: "'a result \<Rightarrow> ('a \<Rightarrow> string \<Rightarrow> 'b result) \<Rightarrow> 'b result" where
  "and_then r f = (case r of Match a s \<Rightarrow> f a s | Fail p \<Rightarrow> Fail p | Throw p w \<Rightarrow> Throw p w)"

section \<open>The skipper\<close>

text \<open>
  \<^verbatim>\<open>CommentSkipper::start = qi::lit(' ') | ('#' >> *(qi::char_ - '\n') >> '\n')\<close>.
  The sequence commits only when its final newline is found.
\<close>

definition CommentSkipper_start :: "string \<Rightarrow> unit result" where
  "CommentSkipper_start s =
     (case s of
        [] \<Rightarrow> Fail s
      | c # r \<Rightarrow>
          if c = CHR '' '' then Match () r
          else if c = CHR ''#'' then
            (case dropWhile (\<lambda>x. x \<noteq> NL) r of
               [] \<Rightarrow> Fail s
             | n # r' \<Rightarrow> Match () r')
          else Fail s)"

lemma CommentSkipper_start_shorter:
  "CommentSkipper_start s = Match u r \<Longrightarrow> length r < length s"
proof -
  have d: "length (dropWhile P xs) \<le> length xs" for P and xs :: string
    by (induction xs) auto
  assume "CommentSkipper_start s = Match u r"
  then show ?thesis
    using d [of "\<lambda>x. x \<noteq> NL" "tl s"]
    by (auto simp: CommentSkipper_start_def split: list.splits if_splits)
qed

text \<open>\<^verbatim>\<open>qi::skip_over\<close>: apply the skipper as long as it matches.\<close>

function skip_over :: "string \<Rightarrow> string" where
  "skip_over s =
     (case CommentSkipper_start s of
        Match u r \<Rightarrow> skip_over r
      | Fail p \<Rightarrow> s
      | Throw p w \<Rightarrow> s)"
  by pat_completeness auto
termination
  by (relation "measure length") (auto dest: CommentSkipper_start_shorter)

declare skip_over.simps [simp del]

lemma skip_over_Nil [simp]: "skip_over [] = []"
  by (simp add: skip_over.simps CommentSkipper_start_def)

lemma skip_over_space [simp]: "skip_over (CHR '' '' # r) = skip_over r"
  by (simp add: skip_over.simps [of "_ # _"] CommentSkipper_start_def)

lemma skip_over_hash:
  "skip_over (CHR ''#'' # r) =
     (case dropWhile (\<lambda>x. x \<noteq> NL) r of [] \<Rightarrow> CHR ''#'' # r | n # r' \<Rightarrow> skip_over r')"
  by (cases "dropWhile (\<lambda>x. x \<noteq> NL) r")
    (simp_all add: skip_over.simps [of "CHR ''#'' # r"] CommentSkipper_start_def
      del: dropWhile_eq_Nil_conv)

lemma skip_over_other [simp]:
  "c \<noteq> CHR '' '' \<Longrightarrow> c \<noteq> CHR ''#'' \<Longrightarrow> skip_over (c # r) = c # r"
  by (simp add: skip_over.simps [of "_ # _"] CommentSkipper_start_def)

lemma skip_over_length: "length (skip_over s) \<le> length s"
proof (induction s rule: skip_over.induct)
  case (1 s)
  show ?case
  proof (cases "CommentSkipper_start s")
    case (Match u r)
    with 1 CommentSkipper_start_shorter [OF Match] show ?thesis
      by (simp add: skip_over.simps [of s])
  qed (simp_all add: skip_over.simps [of s])
qed

lemma skip_over_stops: "\<forall>u r. CommentSkipper_start (skip_over s) \<noteq> Match u r"
proof (induction s rule: skip_over.induct)
  case (1 s)
  show ?case
  proof (cases "CommentSkipper_start s")
    case (Match u r)
    with 1 show ?thesis
      by (simp add: skip_over.simps [of s])
  qed (simp_all add: skip_over.simps [of s])
qed

lemma skip_over_idem [simp]: "skip_over (skip_over s) = skip_over s"
  using skip_over_stops [of s]
  by (cases "CommentSkipper_start (skip_over s)")
    (simp_all add: skip_over.simps [of "skip_over s"])

lemma skip_over_head:
  "skip_over s = c # r \<Longrightarrow> c \<noteq> CHR '' '' \<and> skip_over (c # r) = c # r"
  using skip_over_stops [of s] skip_over_idem [of s]
  by (auto simp: CommentSkipper_start_def simp del: skip_over_idem)

section \<open>Primitive parsers\<close>

text \<open>\<^verbatim>\<open>qi::lit(c)\<close> for a character: skip, then compare one character.\<close>

definition lit_char :: "char \<Rightarrow> string \<Rightarrow> unit result" where
  "lit_char c s =
     (case skip_over s of
        [] \<Rightarrow> Fail []
      | x # r \<Rightarrow> if x = c then Match () r else Fail (x # r))"

text \<open>\<^verbatim>\<open>qi::lit(str)\<close>: skip, then compare the whole text; nothing is consumed on a mismatch.\<close>

definition lit :: "string \<Rightarrow> string \<Rightarrow> unit result" where
  "lit w s =
     (let s1 = skip_over s
      in if prefix w s1 then Match () (drop (length w) s1) else Fail s1)"

definition is_digit :: "char \<Rightarrow> bool" where
  "is_digit c = (c \<in> set ''0123456789'')"

definition digit_value :: "char \<Rightarrow> nat" where
  "digit_value c = of_char c - 48"

definition digits_value :: "string \<Rightarrow> nat" where
  "digits_value ds = foldl (\<lambda>n c. 10 * n + digit_value c) 0 ds"

text \<open>\<^verbatim>\<open>extract_uint\<close>: one or more decimal digits.\<close>

definition extract_uint :: "string \<Rightarrow> (string \<times> string) option" where
  "extract_uint s =
     (if takeWhile is_digit s = [] then None
      else Some (takeWhile is_digit s, dropWhile is_digit s))"

text \<open>
  \<^verbatim>\<open>extract_int<int>\<close>: an optional sign, one or more digits, and no match when the
  value does not fit a 32-bit \<^verbatim>\<open>int\<close>.
\<close>

definition extract_int :: "string \<Rightarrow> (int \<times> string) option" where
  "extract_int s =
     (case s of
        [] \<Rightarrow> None
      | c # r \<Rightarrow>
          (let neg = (c = CHR ''-'');
               s1 = (if c = CHR ''-'' \<or> c = CHR ''+'' then r else s)
           in case extract_uint s1 of
                None \<Rightarrow> None
              | Some (ds, r1) \<Rightarrow>
                  (let v = (if neg then - int (digits_value ds) else int (digits_value ds))
                   in if - (2 ^ 31) \<le> v \<and> v \<le> 2 ^ 31 - 1 then Some (v, r1) else None)))"

text \<open>\<^verbatim>\<open>qi::int_\<close>: skip, then extract; a failure leaves the iterator after the skip.\<close>

definition qi_int :: "string \<Rightarrow> int result" where
  "qi_int s =
     (let s1 = skip_over s
      in case extract_int s1 of Some (v, r) \<Rightarrow> Match v r | None \<Rightarrow> Fail s1)"

text \<open>
  The policies of \<^verbatim>\<open>qi::double_\<close>. Each returns whether it matched and where it
  left the iterator.
\<close>

definition parse_sign :: "string \<Rightarrow> bool \<times> string" where
  "parse_sign s =
     (case s of
        [] \<Rightarrow> (False, s)
      | c # r \<Rightarrow>
          if c = CHR ''-'' then (True, r)
          else if c = CHR ''+'' then (False, r)
          else (False, s))"

text \<open>
  \<^verbatim>\<open>detail::string_parse(lc, uc, first, last, attr)\<close>: every character is the one of
  \<open>lc\<close> or the one of \<open>uc\<close> at its place; the iterator moves only on a full match.
\<close>

fun string_parse :: "string \<Rightarrow> string \<Rightarrow> string \<Rightarrow> string option" where
  "string_parse [] uc s = Some s"
| "string_parse (l # lc) [] s = None"
| "string_parse (l # lc) (u # uc) [] = None"
| "string_parse (l # lc) (u # uc) (c # s) =
     (if c = l \<or> c = u then string_parse lc uc s else None)"

definition parse_nan :: "string \<Rightarrow> bool \<times> string" where
  "parse_nan s =
     (case s of
        [] \<Rightarrow> (False, s)
      | c # r \<Rightarrow>
          if c \<noteq> CHR ''n'' \<and> c \<noteq> CHR ''N'' then (False, s)
          else
            (case string_parse ''nan'' ''NAN'' s of
               None \<Rightarrow> (False, s)
             | Some s1 \<Rightarrow>
                 (case s1 of
                    [] \<Rightarrow> (True, s1)
                  | p # r1 \<Rightarrow>
                      if p = CHR ''('' then
                        (case dropWhile (\<lambda>x. x \<noteq> CHR '')'') r1 of
                           [] \<Rightarrow> (False, s1)
                         | q # r2 \<Rightarrow> (True, r2))
                      else (True, s1))))"

definition parse_inf :: "string \<Rightarrow> bool \<times> string" where
  "parse_inf s =
     (case s of
        [] \<Rightarrow> (False, s)
      | c # r \<Rightarrow>
          if c \<noteq> CHR ''i'' \<and> c \<noteq> CHR ''I'' then (False, s)
          else
            (case string_parse ''inf'' ''INF'' s of
               None \<Rightarrow> (False, s)
             | Some s1 \<Rightarrow>
                 (case string_parse ''inity'' ''INITY'' s1 of
                    None \<Rightarrow> (True, s1)
                  | Some s2 \<Rightarrow> (True, s2))))"

definition parse_dot :: "string \<Rightarrow> bool \<times> string" where
  "parse_dot s =
     (case s of
        [] \<Rightarrow> (False, s)
      | c # r \<Rightarrow> if c = CHR ''.'' then (True, r) else (False, s))"

definition parse_exp :: "string \<Rightarrow> bool \<times> string" where
  "parse_exp s =
     (case s of
        [] \<Rightarrow> (False, s)
      | c # r \<Rightarrow> if c = CHR ''e'' \<or> c = CHR ''E'' then (True, r) else (False, s))"

text \<open>\<^verbatim>\<open>traits::scale\<close>: the number times ten to the given power.\<close>

definition scale10 :: "int \<Rightarrow> rat \<Rightarrow> rat" where
  "scale10 e n = (if 0 \<le> e then n * 10 ^ nat e else n / 10 ^ nat (- e))"

definition negate :: "bool \<Rightarrow> double \<Rightarrow> double" where
  "negate neg d =
     (case d of
        Finite x \<Rightarrow> Finite (if neg then - x else x)
      | Infinity b \<Rightarrow> Infinity (if neg then \<not> b else b)
      | NaN \<Rightarrow> NaN)"

text \<open>
  The tail of \<^verbatim>\<open>real_impl::parse\<close>, after the integer part and the fraction: the
  exponent. An exponent prefix without a number after it makes the whole real fail.
  \<open>ds\<close> are the digits read so far, \<open>frac_digits\<close> how many of them follow the dot.
\<close>

definition real_exponent :: "bool \<Rightarrow> string \<Rightarrow> nat \<Rightarrow> string \<Rightarrow> (double \<times> string) option" where
  "real_exponent neg ds frac_digits s =
     (let n = of_nat (digits_value ds)
      in case parse_exp s of
           (True, s1) \<Rightarrow>
             (case extract_int s1 of
                None \<Rightarrow> None
              | Some (e, s2) \<Rightarrow>
                  Some (negate neg (Finite (scale10 (e - int frac_digits) n)), s2))
         | (False, s1) \<Rightarrow>
             Some (negate neg (Finite (scale10 (- int frac_digits) n)), s1))"

text \<open>
  \<^verbatim>\<open>real_impl::parse\<close> after an integer part: the dot and the fraction (a trailing
  dot is allowed after a number), then the exponent.
\<close>

definition real_after_number :: "bool \<Rightarrow> string \<Rightarrow> string \<Rightarrow> (double \<times> string) option" where
  "real_after_number neg ds s =
     (case parse_dot s of
        (True, s1) \<Rightarrow>
          (case extract_uint s1 of
             Some (fs, s2) \<Rightarrow> real_exponent neg (ds @ fs) (length fs) s2
           | None \<Rightarrow> real_exponent neg ds 0 s1)
      | (False, s1) \<Rightarrow> real_exponent neg ds 0 s1)"

text \<open>
  \<^verbatim>\<open>real_impl::parse\<close> without an integer part: a NaN, an infinity, or a leading
  dot that a fraction must follow.
\<close>

definition real_no_number :: "bool \<Rightarrow> string \<Rightarrow> (double \<times> string) option" where
  "real_no_number neg s =
     (case parse_nan s of
        (True, s1) \<Rightarrow> Some (negate neg NaN, s1)
      | (False, s1) \<Rightarrow>
          (case parse_inf s1 of
             (True, s2) \<Rightarrow> Some (negate neg (Infinity False), s2)
           | (False, s2) \<Rightarrow>
               (case parse_dot s2 of
                  (True, s3) \<Rightarrow>
                    (case extract_uint s3 of
                       Some (fs, s4) \<Rightarrow> real_exponent neg fs (length fs) s4
                     | None \<Rightarrow> None)
                | (False, s3) \<Rightarrow> None)))"

text \<open>
  \<^verbatim>\<open>real_impl::parse\<close>: the sign, then the integer part. On a failure the iterator
  is restored.
\<close>

definition real_impl_parse :: "string \<Rightarrow> (double \<times> string) option" where
  "real_impl_parse s =
     (if s = [] then None
      else
        (case parse_sign s of
           (neg, s1) \<Rightarrow>
             (case extract_uint s1 of
                Some (ds, s2) \<Rightarrow> real_after_number neg ds s2
              | None \<Rightarrow> real_no_number neg s1)))"

text \<open>\<^verbatim>\<open>qi::double_\<close>: skip, then the real parser.\<close>

definition qi_double :: "string \<Rightarrow> double result" where
  "qi_double s =
     (let s1 = skip_over s
      in case real_impl_parse s1 of Some (v, r) \<Rightarrow> Match v r | None \<Rightarrow> Fail s1)"

text \<open>\<^verbatim>\<open>qi::attr(v)\<close>: consumes nothing, does not skip, always matches.\<close>

definition attr :: "'a \<Rightarrow> string \<Rightarrow> 'a result" where
  "attr v s = Match v s"

section \<open>The rule grammar\<close>

text \<open>The symbol table \<^verbatim>\<open>RuleTable\<close>.\<close>

definition RuleTable :: "(string \<times> Rule) list" where
  "RuleTable = [(''F'', forward), (''f'', jump)]"

text \<open>
  The lookup of \<^verbatim>\<open>qi::symbols\<close>: the longest key that is a prefix of the input.
\<close>

fun symbols_find :: "(string \<times> 'a) list \<Rightarrow> string \<Rightarrow> (string \<times> 'a) option" where
  "symbols_find [] s = None"
| "symbols_find ((k, v) # t) s =
     (case symbols_find t s of
        None \<Rightarrow> if prefix k s then Some (k, v) else None
      | Some (k', v') \<Rightarrow>
          if prefix k s \<and> length k' < length k then Some (k, v) else Some (k', v'))"

definition symbols :: "(string \<times> 'a) list \<Rightarrow> string \<Rightarrow> 'a result" where
  "symbols tab s =
     (let s1 = skip_over s
      in case symbols_find tab s1 of
           Some (k, v) \<Rightarrow> Match v (drop (length k) s1)
         | None \<Rightarrow> Fail s1)"

definition ruleTable :: "string \<Rightarrow> Rule result" where
  "ruleTable = symbols RuleTable"

definition WordRuleFactory :: "char \<Rightarrow> Rule" where
  "WordRuleFactory c = WordRule [c]"

text \<open>\<^verbatim>\<open>ascii::char_\<close> matches the characters of the 7-bit ASCII encoding.\<close>

definition ascii_char :: "char \<Rightarrow> bool" where
  "ascii_char c = ((of_char c :: nat) < 128)"

text \<open>
  \<^verbatim>\<open>word = qi::lexeme[ascii::char_ - (qi::lit(' ') | '\n')][qi::_val = wordRuleFactory(qi::_1)]\<close>.
  The lexeme skips first; inside it nothing is skipped.
\<close>

definition RuleGrammar_word :: "string \<Rightarrow> Rule result" where
  "RuleGrammar_word s =
     (case skip_over s of
        [] \<Rightarrow> Fail []
      | c # r \<Rightarrow>
          if c = CHR '' '' \<or> c = NL then Fail (c # r)
          else if ascii_char c then Match (WordRuleFactory c) r
          else Fail (c # r))"

text \<open>
  \<^verbatim>\<open>start = ruleTable | word\<close>. The second alternative starts where the first one
  left the iterator.
\<close>

definition RuleGrammar_start :: "string \<Rightarrow> Rule result" where
  "RuleGrammar_start s =
     (case ruleTable s of
        Match a r \<Rightarrow> Match a r
      | Fail p \<Rightarrow> RuleGrammar_word p
      | Throw p w \<Rightarrow> Throw p w)"

lemma RuleGrammar_start_eq:
  "RuleGrammar_start s =
     (case skip_over s of
        [] \<Rightarrow> Fail []
      | c # r \<Rightarrow>
          if c = CHR ''F'' then Match forward r
          else if c = CHR ''f'' then Match jump r
          else if c = CHR '' '' \<or> c = NL \<or> \<not> ascii_char c then Fail (c # r)
          else Match (WordRule [c]) r)"
  using skip_over_head [of s]
  by (cases "skip_over s")
   (auto simp: RuleGrammar_start_def ruleTable_def symbols_def RuleGrammar_word_def
        Let_def RuleTable_def WordRuleFactory_def ascii_char_def)

text \<open>Every parser leaves the iterator inside the input it was given.\<close>

definition inside :: "string \<Rightarrow> 'a result \<Rightarrow> bool" where
  "inside s res =
     (case res of Match a r \<Rightarrow> suffix r s | Fail p \<Rightarrow> suffix p s | Throw p w \<Rightarrow> suffix p s)"

lemma inside_simps [simp]:
  "inside s (Match a r) = suffix r s"
  "inside s (Fail p) = suffix p s"
  "inside s (Throw p w) = suffix p s"
  by (simp_all add: inside_def)

lemma inside_trans: "inside r res \<Longrightarrow> suffix r s \<Longrightarrow> inside s res"
  by (auto simp: inside_def split: result.splits intro: suffix_order.trans)

lemma inside_sub: "suffix r s \<Longrightarrow> inside r res \<Longrightarrow> inside s res"
  by (rule inside_trans)

lemma skip_over_suffix: "suffix (skip_over s) s"
proof (induction s rule: skip_over.induct)
  case (1 s)
  show ?case
  proof (cases "CommentSkipper_start s")
    case (Match u r)
    have d: "dropWhile P t = n # r \<Longrightarrow> suffix r (c # t)" for P n c and t :: string
      by (metis suffix_dropWhile suffix_ConsD suffix_ConsI)
    from Match have "suffix r s"
      by (auto simp: CommentSkipper_start_def suffix_ConsI
          split: list.splits if_splits intro: d)
    with 1 Match show ?thesis
      by (auto simp: skip_over.simps [of s] intro: suffix_order.trans)
  qed (simp_all add: skip_over.simps [of s])
qed

lemma suffix_skip: "suffix r (skip_over s) \<Longrightarrow> suffix r s"
  using skip_over_suffix suffix_order.trans by blast

lemma lit_char_inside: "inside s (lit_char c s)"
  using skip_over_suffix [of s]
  by (auto simp: lit_char_def suffix_ConsD split: list.splits)

lemma lit_inside: "inside s (lit w s)"
  using skip_over_suffix [of s]
  by (auto simp: lit_def Let_def intro: suffix_order.trans [OF suffix_drop])

lemma extract_uint_suffix: "extract_uint s = Some (ds, r) \<Longrightarrow> suffix r s"
  by (auto simp: extract_uint_def suffix_dropWhile split: if_splits)

lemma extract_int_suffix: "extract_int s = Some (v, r) \<Longrightarrow> suffix r s"
  by (auto simp: extract_int_def Let_def suffix_Cons
      split: list.splits option.splits if_splits dest!: extract_uint_suffix)

lemma qi_int_inside: "inside s (qi_int s)"
  using skip_over_suffix [of s]
  by (auto simp: qi_int_def Let_def split: option.splits
      dest!: extract_int_suffix intro: suffix_order.trans)

lemma parse_sign_suffix: "parse_sign s = (b, r) \<Longrightarrow> suffix r s"
  by (auto simp: parse_sign_def suffix_Cons split: list.splits if_splits)

lemma parse_dot_suffix: "parse_dot s = (b, r) \<Longrightarrow> suffix r s"
  by (auto simp: parse_dot_def suffix_Cons split: list.splits if_splits)

lemma parse_exp_suffix: "parse_exp s = (b, r) \<Longrightarrow> suffix r s"
  by (auto simp: parse_exp_def suffix_Cons split: list.splits if_splits)

lemma string_parse_suffix: "string_parse lc uc s = Some r \<Longrightarrow> suffix r s"
  by (induction lc uc s rule: string_parse.induct) (auto simp: suffix_Cons split: if_splits)

lemma parse_nan_suffix: "parse_nan s = (b, r) \<Longrightarrow> suffix r s"
proof -
  have d: "dropWhile P t = n # r \<Longrightarrow> suffix r (c # t)" for P n c and t :: string
    by (metis suffix_dropWhile suffix_ConsD suffix_ConsI)
  assume "parse_nan s = (b, r)"
  then show ?thesis
    unfolding parse_nan_def
    by (auto simp del: string_parse.simps split: list.splits if_splits option.splits
        dest!: string_parse_suffix intro: suffix_order.trans [OF d])
qed

lemma parse_inf_suffix: "parse_inf s = (b, r) \<Longrightarrow> suffix r s"
  unfolding parse_inf_def
  by (auto simp del: string_parse.simps split: list.splits if_splits option.splits
      dest!: string_parse_suffix intro: suffix_order.trans)

lemma real_exponent_suffix:
  "real_exponent neg ds fd s = Some (v, r) \<Longrightarrow> suffix r s"
  unfolding real_exponent_def Let_def
  by (auto split: prod.splits bool.splits option.splits
      dest!: parse_exp_suffix extract_int_suffix intro: suffix_order.trans)

lemma real_after_number_suffix:
  assumes "real_after_number neg ds s = Some (v, r)"
  shows "suffix r s"
proof -
  obtain b s1 where d: "parse_dot s = (b, s1)"
    by (cases "parse_dot s")
  from assms d have
    "(\<exists>fs s2. extract_uint s1 = Some (fs, s2) \<and>
        real_exponent neg (ds @ fs) (length fs) s2 = Some (v, r)) \<or>
     real_exponent neg ds 0 s1 = Some (v, r)"
    by (cases b; cases "extract_uint s1") (auto simp: real_after_number_def)
  then have "suffix r s1"
    by (meson extract_uint_suffix real_exponent_suffix suffix_order.trans)
  with parse_dot_suffix [OF d] show ?thesis
    using suffix_order.trans by blast
qed

lemma real_no_number_suffix:
  assumes "real_no_number neg s = Some (v, r)"
  shows "suffix r s"
proof -
  obtain b1 s1 where n: "parse_nan s = (b1, s1)"
    by (cases "parse_nan s")
  obtain b2 s2 where i: "parse_inf s1 = (b2, s2)"
    by (cases "parse_inf s1")
  obtain b3 s3 where d: "parse_dot s2 = (b3, s3)"
    by (cases "parse_dot s2")
  have c: "suffix s1 s" "suffix s2 s" "suffix s3 s"
    using parse_nan_suffix [OF n] parse_inf_suffix [OF i] parse_dot_suffix [OF d]
      suffix_order.trans by blast+
  from assms have
    "r = s1 \<or> r = s2 \<or>
     (\<exists>fs s4. extract_uint s3 = Some (fs, s4) \<and>
        real_exponent neg fs (length fs) s4 = Some (v, r))"
    using n i d
    by (cases b1; cases b2; cases b3; cases "extract_uint s3")
      (auto simp: real_no_number_def)
  with c show ?thesis
    by (meson extract_uint_suffix real_exponent_suffix suffix_order.trans)
qed

lemma real_impl_parse_suffix:
  assumes "real_impl_parse s = Some (v, r)"
  shows "suffix r s"
proof -
  obtain neg s1 where s1: "parse_sign s = (neg, s1)"
    by (cases "parse_sign s")
  from assms s1 have
    "(\<exists>ds s2. extract_uint s1 = Some (ds, s2) \<and> real_after_number neg ds s2 = Some (v, r)) \<or>
     real_no_number neg s1 = Some (v, r)"
    by (cases "extract_uint s1") (auto simp: real_impl_parse_def split: if_splits)
  then have "suffix r s1"
    by (meson extract_uint_suffix real_after_number_suffix real_no_number_suffix
        suffix_order.trans)
  with parse_sign_suffix [OF s1] show ?thesis
    using suffix_order.trans by blast
qed

lemma qi_double_inside: "inside s (qi_double s)"
  using skip_over_suffix [of s]
  by (auto simp: qi_double_def Let_def split: option.splits
      dest!: real_impl_parse_suffix intro: suffix_order.trans)

lemma RuleGrammar_start_inside: "inside s (RuleGrammar_start s)"
proof (cases "skip_over s")
  case Nil
  then show ?thesis by (simp add: RuleGrammar_start_eq)
next
  case (Cons c r)
  then have a: "suffix (c # r) s"
    using skip_over_suffix [of s] by simp
  then have "suffix r s"
    by (rule suffix_ConsD)
  with a Cons show ?thesis
    by (simp add: RuleGrammar_start_eq)
qed

lemma inside_expect: "inside s r \<Longrightarrow> inside s (expect r w)"
  by (cases r) (simp_all add: expect_def)

lemma inside_and_then:
  "inside s r \<Longrightarrow> (\<And>a t. suffix t s \<Longrightarrow> inside t (f a t)) \<Longrightarrow> inside s (and_then r f)"
  by (cases r) (auto simp: and_then_def intro: inside_trans)

lemma RuleGrammar_start_shorter:
  "RuleGrammar_start s = Match a r \<Longrightarrow> length r < length s"
  using skip_over_length [of s]
  by (auto simp: RuleGrammar_start_eq split: list.splits if_splits)

section \<open>The production grammar\<close>

text \<open>
  The operator \<^verbatim>\<open>+rule\<close>: the first rule must match; then rules are taken until
  one fails, and the iterator stays where that last attempt left it.
\<close>

function plus_loop :: "string \<Rightarrow> Rules result" where
  "plus_loop s =
     (case RuleGrammar_start s of
        Match a r \<Rightarrow>
          (case plus_loop r of
             Match as r' \<Rightarrow> Match (a # as) r'
           | Fail p \<Rightarrow> Fail p
           | Throw p w \<Rightarrow> Throw p w)
      | Fail p \<Rightarrow> Match [] p
      | Throw p w \<Rightarrow> Throw p w)"
  by pat_completeness auto
termination
  by (relation "measure length") (auto dest: RuleGrammar_start_shorter)

declare plus_loop.simps [simp del]

definition plus_rule :: "string \<Rightarrow> Rules result" where
  "plus_rule s =
     (case RuleGrammar_start s of
        Match a r \<Rightarrow>
          (case plus_loop r of
             Match as r' \<Rightarrow> Match (a # as) r'
           | Fail p \<Rightarrow> Fail p
           | Throw p w \<Rightarrow> Throw p w)
      | Fail p \<Rightarrow> Fail s
      | Throw p w \<Rightarrow> Throw p w)"

text \<open>
  \<^verbatim>\<open>probability = ('(' > qi::double_ > ')') | qi::attr(1)\<close>. The first alternative
  works on a copy of the iterator, so the second one starts at the original position.
\<close>

definition ProductionGrammar_probability :: "string \<Rightarrow> double result" where
  "ProductionGrammar_probability s =
     (case lit_char CHR ''('' s of
        Match u r1 \<Rightarrow>
          and_then (expect (qi_double r1) (Info ''real'')) (\<lambda>d r2.
          and_then (expect (lit_char CHR '')'' r2) (InfoValue ''literal-char'' '')'')) (\<lambda>u r3.
          Match d r3))
      | Fail p \<Rightarrow> attr (Finite 1) s
      | Throw p w \<Rightarrow> Throw p w)"

text \<open>\<^verbatim>\<open>production = rule > probability > "->" > +rule\<close>.\<close>

definition ProductionGrammar_production :: "string \<Rightarrow> Production result" where
  "ProductionGrammar_production s =
     (case RuleGrammar_start s of
        Match pred r1 \<Rightarrow>
          and_then (expect (ProductionGrammar_probability r1) (Info ''unnamed-rule'')) (\<lambda>p r2.
          and_then (expect (lit ''->'' r2) (InfoValue ''literal-string'' ''->'')) (\<lambda>u r3.
          and_then (expect (plus_rule r3) (InfoSubject ''plus'' (Info ''rule''))) (\<lambda>succ r4.
          Match \<lparr>predcessor = pred, probability = p, successor = succ\<rparr> r4)))
      | Fail p \<Rightarrow> Fail s
      | Throw p w \<Rightarrow> Throw p w)"

definition ProductionFactory :: "Production \<Rightarrow> ProductionPair" where
  "ProductionFactory p = (predcessor p, [(probability p, successor p)])"

text \<open>\<^verbatim>\<open>pair = production[qi::_val = factory(qi::_1)]\<close>.\<close>

definition ProductionGrammar_pair :: "string \<Rightarrow> ProductionPair result" where
  "ProductionGrammar_pair s =
     (case ProductionGrammar_production s of
        Match p r \<Rightarrow> Match (ProductionFactory p) r
      | Fail p \<Rightarrow> Fail p
      | Throw p w \<Rightarrow> Throw p w)"

text \<open>
  How Spirit stores an element of a list into a \<^verbatim>\<open>std::map\<close> attribute:
  \<^verbatim>\<open>c.insert(c.end(), val)\<close>, which leaves the map as it is when the key is present.
\<close>

definition push_back :: "ProductionMap \<Rightarrow> ProductionPair \<Rightarrow> ProductionMap" where
  "push_back c val =
     (case c (fst val) of
        None \<Rightarrow> c(fst val \<mapsto> snd val)
      | Some old \<Rightarrow> c)"

lemma plus_loop_inside: "inside s (plus_loop s)"
proof (induction s rule: plus_loop.induct)
  case (1 s)
  show ?case
  proof (cases "RuleGrammar_start s")
    case (Match a r)
    with RuleGrammar_start_inside [of s] have "suffix r s"
      by simp
    with 1 [OF Match] Match show ?thesis
      by (cases "plus_loop r")
        (auto simp: plus_loop.simps [of s] intro: suffix_order.trans)
  next
    case (Fail p)
    with RuleGrammar_start_inside [of s] show ?thesis
      by (simp add: plus_loop.simps [of s])
  next
    case (Throw p w)
    with RuleGrammar_start_inside [of s] show ?thesis
      by (simp add: plus_loop.simps [of s])
  qed
qed

lemma plus_rule_inside: "inside s (plus_rule s)"
proof (cases "RuleGrammar_start s")
  case (Match a r)
  with RuleGrammar_start_inside [of s] have "suffix r s"
    by simp
  with plus_loop_inside [of r] Match show ?thesis
    by (cases "plus_loop r") (auto simp: plus_rule_def intro: suffix_order.trans)
next
  case (Fail p)
  then show ?thesis by (simp add: plus_rule_def)
next
  case (Throw p w)
  with RuleGrammar_start_inside [of s] show ?thesis
    by (simp add: plus_rule_def)
qed

lemma ProductionGrammar_probability_inside: "inside s (ProductionGrammar_probability s)"
proof (cases "lit_char CHR ''('' s")
  case (Match u r1)
  with lit_char_inside [of s "CHR ''(''"] have "suffix r1 s"
    by simp
  then have "inside s
     (and_then (expect (qi_double r1) (Info ''real'')) (\<lambda>d r2.
      and_then (expect (lit_char CHR '')'' r2) (InfoValue ''literal-char'' '')'')) (\<lambda>u r3.
      Match d r3)))"
    by (rule inside_sub)
      (intro inside_and_then inside_expect qi_double_inside lit_char_inside, simp_all)
  with Match show ?thesis
    by (simp add: ProductionGrammar_probability_def)
next
  case (Fail p)
  then show ?thesis by (simp add: ProductionGrammar_probability_def attr_def)
next
  case (Throw p w)
  with lit_char_inside [of s "CHR ''(''"] show ?thesis
    by (simp add: ProductionGrammar_probability_def)
qed

lemma ProductionGrammar_production_inside: "inside s (ProductionGrammar_production s)"
proof (cases "RuleGrammar_start s")
  case (Match pred r1)
  with RuleGrammar_start_inside [of s] have "suffix r1 s"
    by simp
  then have "inside s
     (and_then (expect (ProductionGrammar_probability r1) (Info ''unnamed-rule'')) (\<lambda>p r2.
      and_then (expect (lit ''->'' r2) (InfoValue ''literal-string'' ''->'')) (\<lambda>u r3.
      and_then (expect (plus_rule r3) (InfoSubject ''plus'' (Info ''rule''))) (\<lambda>succ r4.
      Match \<lparr>predcessor = pred, probability = p, successor = succ\<rparr> r4))))"
    by (rule inside_sub)
      (intro inside_and_then inside_expect ProductionGrammar_probability_inside
        lit_inside plus_rule_inside, simp_all)
  with Match show ?thesis
    by (simp add: ProductionGrammar_production_def)
next
  case (Fail p)
  then show ?thesis by (simp add: ProductionGrammar_production_def)
next
  case (Throw p w)
  with RuleGrammar_start_inside [of s] show ?thesis
    by (simp add: ProductionGrammar_production_def)
qed

lemma ProductionGrammar_pair_inside: "inside s (ProductionGrammar_pair s)"
  using ProductionGrammar_production_inside [of s]
  by (cases "ProductionGrammar_production s") (simp_all add: ProductionGrammar_pair_def)

lemma lit_char_shorter: "lit_char c s = Match u r \<Longrightarrow> length r < length s"
  using skip_over_length [of s]
  by (auto simp: lit_char_def split: list.splits if_splits)

lemma ProductionGrammar_pair_shorter:
  "ProductionGrammar_pair s = Match val r \<Longrightarrow> length r \<le> length s"
  using ProductionGrammar_pair_inside [of s] by (simp add: suffix_length_le)

text \<open>
  \<^verbatim>\<open>start = pair % '\n'\<close>: after the first pair, a newline and a pair are taken as
  long as both match; when one of them does not, the iterator goes back to the end
  of the last pair.
\<close>

function list_loop :: "ProductionMap \<Rightarrow> string \<Rightarrow> ProductionMap result" where
  "list_loop c save =
     (case lit_char NL save of
        Match u r \<Rightarrow>
          (case ProductionGrammar_pair r of
             Match val r' \<Rightarrow> list_loop (push_back c val) r'
           | Fail p \<Rightarrow> Match c save
           | Throw p w \<Rightarrow> Throw p w)
      | Fail p \<Rightarrow> Match c save
      | Throw p w \<Rightarrow> Throw p w)"
  by pat_completeness auto
termination
proof (relation "measure (\<lambda>(c, s). length s)")
  fix c :: ProductionMap and save r r' :: string and u val
  assume "lit_char NL save = Match u r" and "ProductionGrammar_pair r = Match val r'"
  then show "((push_back c val, r'), (c, save)) \<in> measure (\<lambda>(c, s). length s)"
    using lit_char_shorter [of NL save u r] ProductionGrammar_pair_shorter [of r val r']
    by simp
qed simp

declare list_loop.simps [simp del]

definition ProductionGrammar_start :: "ProductionMap \<Rightarrow> string \<Rightarrow> ProductionMap result" where
  "ProductionGrammar_start c s =
     (case ProductionGrammar_pair s of
        Match val r \<Rightarrow> list_loop (push_back c val) r
      | Fail p \<Rightarrow> Fail s
      | Throw p w \<Rightarrow> Throw p w)"

section \<open>The L-system grammar\<close>

text \<open>
  The start rule of \<^verbatim>\<open>LSystemGrammar\<close>. Spirit flattens the parenthesised groups, so
  the rule is one sequence of ten components joined by the expectation operator:
  where the first one fails the rule fails, where a later one fails the rule throws.
  The attribute is the freshly constructed \<^verbatim>\<open>LSystem\<close> of the caller, whose axiom
  and production map are empty. A grammar inside an expression is a reference to its
  start rule, and a failure is reported under the name of that rule: \<^verbatim>\<open>rule\<close> for the
  start rule of \<^verbatim>\<open>RuleGrammar\<close>, and no name for the one of \<^verbatim>\<open>ProductionGrammar\<close>.
  The names given with \<^verbatim>\<open>rule.name("production")\<close> and \<^verbatim>\<open>production.name("production")\<close>
  are those of the grammar objects.
\<close>

definition LSystemGrammar_sequence :: "string \<Rightarrow> LSystem result" where
  "LSystemGrammar_sequence s =
     (case lit ''generations:'' s of
        Match u r1 \<Rightarrow>
          and_then (expect (qi_int r1) (Info ''integer'')) (\<lambda>g r2.
          and_then (expect (lit ''angle:'' r2) (InfoValue ''literal-string'' ''angle:'')) (\<lambda>u r3.
          and_then (expect (qi_double r3) (Info ''real'')) (\<lambda>a r4.
          and_then (expect (lit ''scale:'' r4) (InfoValue ''literal-string'' ''scale:'')) (\<lambda>u r5.
          and_then (expect (qi_double r5) (Info ''real'')) (\<lambda>sc r6.
          and_then (expect (lit ''axiom:'' r6) (InfoValue ''literal-string'' ''axiom:'')) (\<lambda>u r7.
          and_then (expect (plus_rule r7) (InfoSubject ''plus'' (Info ''rule''))) (\<lambda>ax r8.
          and_then (expect (lit_char NL r8) (InfoValue ''literal-char'' [NL])) (\<lambda>u r9.
          and_then (expect (ProductionGrammar_start Map.empty r9) (Info ''unnamed-rule'')) (\<lambda>pm r10.
          Match \<lparr>generations = g, angle = a, scale = sc, axiom = ax, productions = pm\<rparr>
            r10)))))))))
      | Fail p \<Rightarrow> Fail s
      | Throw p w \<Rightarrow> Throw p w)"

text \<open>
  The handler installed with \<^verbatim>\<open>qi::on_error<qi::fail>\<close>: an expectation failure
  inside the start rule is caught, the message is written to the stream \<^verbatim>\<open>error\<close>
  of the grammar, and the rule fails. The result comes with the text written.
\<close>

definition LSystemGrammar_start :: "string \<Rightarrow> LSystem result \<times> string" where
  "LSystemGrammar_start s =
     (case LSystemGrammar_sequence s of
        Match l r \<Rightarrow> (Match l r, [])
      | Fail p \<Rightarrow> (Fail p, [])
      | Throw p w \<Rightarrow>
          (Fail s,
           ''Error! Expecting '' @ print_info w @ '' here: '' @ [CHR 0x22] @ p @ [CHR 0x22] @ [NL]))"

section \<open>The entry points\<close>

text \<open>
  \<^verbatim>\<open>qi::phrase_parse\<close>: the grammar, then a final skip when it matched. It reports
  the match and where the iterator is.
\<close>

definition phrase_parse :: "string \<Rightarrow> LSystem result \<times> string" where
  "phrase_parse s =
     (case LSystemGrammar_start s of
        (Match l r, e) \<Rightarrow> (Match l (skip_over r), e)
      | (Fail p, e) \<Rightarrow> (Fail p, e)
      | (Throw p w, e) \<Rightarrow> (Throw p w, e))"

datatype error = domain_error string

text \<open>
  The function \<^verbatim>\<open>parse\<close> of the anonymous namespace. The iterator is its own copy;
  where it stands after the grammar is not looked at.
\<close>

definition parse :: "string \<Rightarrow> error + LSystem" where
  "parse s =
     (case phrase_parse s of
        (Match l r, e) \<Rightarrow> Inr l
      | (Fail p, e) \<Rightarrow> Inl (domain_error (''Cannot parse lsystem:'' @ e))
      | (Throw p w, e) \<Rightarrow> Inl (domain_error (''Cannot parse lsystem:'' @ e)))"

text \<open>\<^verbatim>\<open>LSystemParser::parse(const std::string&)\<close>.\<close>

definition LSystemParser_parse :: "string \<Rightarrow> error + LSystem" where
  "LSystemParser_parse str = parse str"

text \<open>
  \<^verbatim>\<open>LSystemParser::parse(std::istream&)\<close>. A stream is the characters it has not
  yet delivered; the pair of \<^verbatim>\<open>istreambuf_iterator\<close>s reads them all.
\<close>

type_synonym istream = string

definition read_all :: "istream \<Rightarrow> string \<times> istream" where
  "read_all i = (i, [])"

definition LSystemParser_parse_istream :: "istream \<Rightarrow> (error + LSystem) \<times> istream" where
  "LSystemParser_parse_istream i =
     (case read_all i of (content, i') \<Rightarrow> (LSystemParser_parse content, i'))"

section \<open>Texts and notions of the statements\<close>

text \<open>
  The second scenario of the specification (two weighted alternatives of \<open>F\<close>), with
  the header fields separated by spaces.
\<close>

definition scenario_B :: string where
  "scenario_B =
     ''generations:5 angle:20 scale:0.6 axiom:F'' @ [NL] @
     ''F (0.5) -> F[+F]F'' @ [NL] @
     ''F (0.5) -> F[-F]F''"

text \<open>What the code returns for \<open>scenario_B\<close>.\<close>

definition scenario_B_result :: LSystem where
  "scenario_B_result =
     \<lparr>generations = 5, angle = Finite 20, scale = Finite (3 / 5),
      axiom = [MoveForwardRule],
      productions =
        [MoveForwardRule \<mapsto>
           [(Finite (1 / 2),
             [MoveForwardRule, WordRule ''['', WordRule ''+'', MoveForwardRule,
              WordRule '']'', MoveForwardRule])]]\<rparr>"

text \<open>The entries of a production map that come from production lines of a text.\<close>

definition from_lines :: "string \<Rightarrow> ProductionMap \<Rightarrow> bool" where
  "from_lines s c =
     (\<forall>k ps e. c k = Some ps \<longrightarrow> e \<in> set ps \<longrightarrow>
        (\<exists>s' p r. suffix s' s \<and> ProductionGrammar_production s' = Match p r \<and>
           k = predcessor p \<and> e = (probability p, successor p)))"

text \<open>A document whose only production line has the probability 2.\<close>

definition probability_two :: string where
  "probability_two = ''generations:1 angle:2 scale:3 axiom:F'' @ [NL] @ ''F (2) -> F''"

text \<open>Every \<open>#\<close> of the text is followed by a newline later in the text.\<close>

fun no_open_comment :: "string \<Rightarrow> bool" where
  "no_open_comment [] = True"
| "no_open_comment (c # r) = ((c = CHR ''#'' \<longrightarrow> NL \<in> set r) \<and> no_open_comment r)"

text \<open>A document followed by an empty line and a text that is no production.\<close>

definition trailing_text :: string where
  "trailing_text = scenario_B @ [NL, NL] @ ''this is not a production''"

text \<open>The symbol of a character that is not skipped.\<close>

definition rule_of :: "char \<Rightarrow> Rule" where
  "rule_of c =
     (if c = CHR ''F'' then forward else if c = CHR ''f'' then jump else WordRuleFactory c)"

text \<open>The positions at which \<open>skip_over\<close> applies the skipper.\<close>

function skip_points :: "string \<Rightarrow> string list" where
  "skip_points s =
     s # (case CommentSkipper_start s of
            Match u r \<Rightarrow> skip_points r
          | Fail p \<Rightarrow> []
          | Throw p w \<Rightarrow> [])"
  by pat_completeness auto
termination
  by (relation "measure length") (auto dest: CommentSkipper_start_shorter)

declare skip_points.simps [simp del]

text \<open>
  The positions between the tokens of a sequence: those of the skip before a
  component that matched, and those of what follows it.
\<close>

definition seq_points :: "'a result \<Rightarrow> string list \<Rightarrow> ('a \<Rightarrow> string \<Rightarrow> string list) \<Rightarrow> string list" where
  "seq_points res ps f =
     (case res of Match a r \<Rightarrow> ps @ f a r | Fail p \<Rightarrow> [] | Throw p w \<Rightarrow> [])"

text \<open>The positions between the symbols of a sequence of symbols.\<close>

function plus_points :: "string \<Rightarrow> string list" where
  "plus_points s =
     (case RuleGrammar_start s of
        Match a r \<Rightarrow> skip_points s @ plus_points r
      | Fail p \<Rightarrow> []
      | Throw p w \<Rightarrow> [])"
  by pat_completeness auto
termination
  by (relation "measure length") (auto dest: RuleGrammar_start_shorter)

declare plus_points.simps [simp del]

definition probability_points :: "string \<Rightarrow> string list" where
  "probability_points s =
     seq_points (lit_char CHR ''('' s) (skip_points s) (\<lambda>u r1.
     seq_points (qi_double r1) (skip_points r1) (\<lambda>d r2.
     seq_points (lit_char CHR '')'' r2) (skip_points r2) (\<lambda>u r3. [])))"

definition production_points :: "string \<Rightarrow> string list" where
  "production_points s =
     seq_points (RuleGrammar_start s) (skip_points s) (\<lambda>pred r1.
     seq_points (ProductionGrammar_probability r1) (probability_points r1) (\<lambda>p r2.
     seq_points (lit ''->'' r2) (skip_points r2) (\<lambda>u r3.
     seq_points (plus_rule r3) (plus_points r3) (\<lambda>succ r4. []))))"

text \<open>
  The positions between the tokens of the production lines that \<open>list_loop\<close> takes:
  a newline and a production count when both match.
\<close>

function list_points :: "string \<Rightarrow> string list" where
  "list_points save =
     (case lit_char NL save of
        Match u r \<Rightarrow>
          (case ProductionGrammar_pair r of
             Match val r' \<Rightarrow> skip_points save @ production_points r @ list_points r'
           | Fail p \<Rightarrow> []
           | Throw p w \<Rightarrow> [])
      | Fail p \<Rightarrow> []
      | Throw p w \<Rightarrow> [])"
  by pat_completeness auto
termination
proof (relation "measure length")
  fix save r r' :: string and u val
  assume "lit_char NL save = Match u r" and "ProductionGrammar_pair r = Match val r'"
  then show "(r', save) \<in> measure length"
    using lit_char_shorter [of NL save u r] ProductionGrammar_pair_shorter [of r val r']
    by simp
qed simp

declare list_points.simps [simp del]

definition start_points :: "string \<Rightarrow> string list" where
  "start_points s =
     seq_points (ProductionGrammar_pair s) (production_points s) (\<lambda>val r. list_points r)"

text \<open>
  The positions between two tokens of a document that parses, and before its first
  token: where a token ends, and where a space or a comment ends that is skipped
  before the next token.
\<close>

definition parse_points :: "string \<Rightarrow> string list" where
  "parse_points s =
     seq_points (lit ''generations:'' s) (skip_points s) (\<lambda>u r1.
     seq_points (qi_int r1) (skip_points r1) (\<lambda>g r2.
     seq_points (lit ''angle:'' r2) (skip_points r2) (\<lambda>u r3.
     seq_points (qi_double r3) (skip_points r3) (\<lambda>a r4.
     seq_points (lit ''scale:'' r4) (skip_points r4) (\<lambda>u r5.
     seq_points (qi_double r5) (skip_points r5) (\<lambda>sc r6.
     seq_points (lit ''axiom:'' r6) (skip_points r6) (\<lambda>u r7.
     seq_points (plus_rule r7) (plus_points r7) (\<lambda>ax r8.
     seq_points (lit_char NL r8) (skip_points r8) (\<lambda>u r9.
     seq_points (ProductionGrammar_start Map.empty r9) (start_points r9) (\<lambda>pm r10. []))))))))))"



section \<open>Evaluation and inversion of the parsers\<close>

text \<open>The equations that evaluate the parsers on a given text.\<close>

lemmas parser_defs =
  lit_char_def lit_def qi_int_def qi_double_def attr_def expect_def and_then_def
  extract_int_def extract_uint_def is_digit_def digit_value_def digits_value_def
  real_impl_parse_def real_after_number_def real_no_number_def real_exponent_def
  parse_sign_def parse_nan_def parse_inf_def parse_dot_def parse_exp_def scale10_def negate_def
  RuleGrammar_start_eq ascii_char_def forward_def jump_def
  plus_rule_def plus_loop.simps
  ProductionGrammar_probability_def ProductionGrammar_production_def
  ProductionGrammar_pair_def ProductionFactory_def push_back_def
  ProductionGrammar_start_def list_loop.simps
  LSystemGrammar_sequence_def LSystemGrammar_start_def phrase_parse_def parse_def
  LSystemParser_parse_def skip_over_hash Let_def

lemma and_then_Match:
  "and_then r f = Match b t \<longleftrightarrow> (\<exists>a s. r = Match a s \<and> f a s = Match b t)"
  by (cases r) (simp_all add: and_then_def)

lemma expect_Match: "expect r w = Match a s \<longleftrightarrow> r = Match a s"
  by (cases r) (simp_all add: expect_def)

lemma lit_Match: "lit w s = Match u r \<longleftrightarrow> skip_over s = w @ r"
  by (auto simp: lit_def Let_def prefix_def)

lemma lit_char_Match: "lit_char c s = Match u r \<longleftrightarrow> skip_over s = c # r"
  by (auto simp: lit_char_def split: list.splits)

lemma plus_rule_nonempty: "plus_rule s = Match as r \<Longrightarrow> as \<noteq> []"
  by (auto simp: plus_rule_def split: result.splits)

lemma parse_Inr:
  "parse s = Inr l \<longleftrightarrow> (\<exists>r. LSystemGrammar_sequence s = Match l r)"
  by (auto simp: parse_def phrase_parse_def LSystemGrammar_start_def split: result.splits)

lemma LSystemGrammar_sequence_Match:
  "LSystemGrammar_sequence s = Match l r \<longleftrightarrow>
   (\<exists>r1 r2 r3 r4 r5 r6 r7 r8 r9.
      lit ''generations:'' s = Match () r1 \<and> qi_int r1 = Match (generations l) r2 \<and>
      lit ''angle:'' r2 = Match () r3 \<and> qi_double r3 = Match (angle l) r4 \<and>
      lit ''scale:'' r4 = Match () r5 \<and> qi_double r5 = Match (scale l) r6 \<and>
      lit ''axiom:'' r6 = Match () r7 \<and> plus_rule r7 = Match (axiom l) r8 \<and>
      lit_char NL r8 = Match () r9 \<and>
      ProductionGrammar_start Map.empty r9 = Match (productions l) r)"
  unfolding LSystemGrammar_sequence_def
  by (cases l) (auto simp: and_then_Match expect_Match split: result.splits)

lemma Match_suffix: "p = Match a r \<Longrightarrow> inside s p \<Longrightarrow> suffix r s"
  by simp

lemma LSystemGrammar_sequence_productions:
  assumes "LSystemGrammar_sequence s = Match l r"
  shows "\<exists>r9. suffix r9 s \<and> ProductionGrammar_start Map.empty r9 = Match (productions l) r"
proof -
  from assms obtain r1 r2 r3 r4 r5 r6 r7 r8 r9 where
    a: "lit ''generations:'' s = Match () r1" "qi_int r1 = Match (generations l) r2"
      "lit ''angle:'' r2 = Match () r3" "qi_double r3 = Match (angle l) r4"
      "lit ''scale:'' r4 = Match () r5" "qi_double r5 = Match (scale l) r6"
      "lit ''axiom:'' r6 = Match () r7" "plus_rule r7 = Match (axiom l) r8"
      "lit_char NL r8 = Match () r9"
    and b: "ProductionGrammar_start Map.empty r9 = Match (productions l) r"
    unfolding LSystemGrammar_sequence_Match by blast
  have "suffix r1 s" "suffix r2 r1" "suffix r3 r2" "suffix r4 r3" "suffix r5 r4"
    "suffix r6 r5" "suffix r7 r6" "suffix r8 r7" "suffix r9 r8"
    using a(1) lit_inside apply (rule Match_suffix)
    using a(2) qi_int_inside apply (rule Match_suffix)
    using a(3) lit_inside apply (rule Match_suffix)
    using a(4) qi_double_inside apply (rule Match_suffix)
    using a(5) lit_inside apply (rule Match_suffix)
    using a(6) qi_double_inside apply (rule Match_suffix)
    using a(7) lit_inside apply (rule Match_suffix)
    using a(8) plus_rule_inside apply (rule Match_suffix)
    using a(9) lit_char_inside apply (rule Match_suffix)
    done
  then have "suffix r9 s"
    by (meson suffix_order.trans)
  with b show ?thesis by blast
qed

lemma from_lines_push_back:
  assumes "from_lines s c" and "ProductionGrammar_pair s' = Match val r" and "suffix s' s"
  shows "from_lines s (push_back c val)"
proof -
  from assms(2) obtain p where
    p: "ProductionGrammar_production s' = Match p r" "val = ProductionFactory p"
    by (auto simp: ProductionGrammar_pair_def split: result.splits)
  show ?thesis
  proof (cases "c (fst val)")
    case None
    with assms(1,3) p show ?thesis
      unfolding from_lines_def push_back_def ProductionFactory_def
      by (auto split: if_splits)
  next
    case (Some old)
    with assms(1) show ?thesis
      by (simp add: push_back_def)
  qed
qed

lemma list_loop_from_lines:
  "list_loop c save = Match m r \<Longrightarrow> suffix save s \<Longrightarrow> from_lines s c \<Longrightarrow> from_lines s m"
proof (induction c save arbitrary: m r rule: list_loop.induct)
  case (1 c save)
  show ?case
  proof (cases "lit_char NL save")
    case (Match u r1)
    then have s1: "suffix r1 s"
      using lit_char_inside [of save NL] "1.prems"(2) by (auto intro: suffix_order.trans)
    show ?thesis
    proof (cases "ProductionGrammar_pair r1")
      case pm: (Match val r2)
      then have "suffix r2 s"
        using ProductionGrammar_pair_inside [of r1] s1 by (auto intro: suffix_order.trans)
      moreover have "from_lines s (push_back c val)"
        using "1.prems"(3) pm s1 by (rule from_lines_push_back)
      moreover have "list_loop (push_back c val) r2 = Match m r"
        using "1.prems"(1) Match pm by (simp add: list_loop.simps [of c save])
      ultimately show ?thesis
        using "1.IH" [OF Match pm] by blast
    next
      case (Fail p)
      with "1.prems" Match show ?thesis by (simp add: list_loop.simps [of c save])
    next
      case (Throw p w)
      with "1.prems" Match show ?thesis by (simp add: list_loop.simps [of c save])
    qed
  next
    case (Fail p)
    with "1.prems" show ?thesis by (simp add: list_loop.simps [of c save])
  next
    case (Throw p w)
    with "1.prems" show ?thesis by (simp add: list_loop.simps [of c save])
  qed
qed

lemma ProductionGrammar_start_from_lines:
  assumes "ProductionGrammar_start Map.empty s' = Match m r" and "suffix s' s"
  shows "from_lines s m"
proof -
  from assms(1) obtain val r1 where
    v: "ProductionGrammar_pair s' = Match val r1" "list_loop (push_back Map.empty val) r1 = Match m r"
    by (auto simp: ProductionGrammar_start_def split: result.splits)
  have "from_lines s Map.empty"
    by (simp add: from_lines_def)
  then have "from_lines s (push_back Map.empty val)"
    using v(1) assms(2) by (rule from_lines_push_back)
  moreover have "suffix r1 s"
    using ProductionGrammar_pair_inside [of s'] v(1) assms(2) by (auto intro: suffix_order.trans)
  ultimately show ?thesis
    using list_loop_from_lines [OF v(2)] by blast
qed

lemma ProductionGrammar_production_probability:
  assumes "ProductionGrammar_production s = Match p r"
  shows "\<exists>a r1. RuleGrammar_start s = Match a r1 \<and>
    (if prefix ''('' (skip_over r1)
     then \<exists>r2. qi_double (tl (skip_over r1)) = Match (probability p) r2
     else probability p = Finite 1)"
proof -
  from assms obtain a r1 r2 where
    a: "RuleGrammar_start s = Match a r1" "ProductionGrammar_probability r1 = Match (probability p) r2"
    by (auto simp: ProductionGrammar_production_def and_then_Match expect_Match
        split: result.splits)
  show ?thesis
  proof (cases "prefix ''('' (skip_over r1)")
    case True
    then have "lit_char CHR ''('' r1 = Match () (tl (skip_over r1))"
      by (auto simp: lit_char_def prefix_def)
    with a(2) have "\<exists>r2. qi_double (tl (skip_over r1)) = Match (probability p) r2"
      by (auto simp: ProductionGrammar_probability_def and_then_Match expect_Match)
    with a(1) True show ?thesis by simp
  next
    case False
    then have "\<exists>q. lit_char CHR ''('' r1 = Fail q"
      by (auto simp: lit_char_def split: list.splits)
    with a(2) have "probability p = Finite 1"
      by (auto simp: ProductionGrammar_probability_def attr_def)
    with a(1) False show ?thesis by simp
  qed
qed

lemma parse_scenario_B: "parse scenario_B = Inr scenario_B_result"
  by (simp add: scenario_B_def scenario_B_result_def parser_defs)

lemma dropWhile_no_newline: "NL \<notin> set r \<Longrightarrow> dropWhile (\<lambda>x. x \<noteq> NL) r = []"
  by (induction r) auto

lemma skip_over_open_comment: "NL \<notin> set r \<Longrightarrow> skip_over (CHR ''#'' # r) = CHR ''#'' # r"
  by (simp add: skip_over_hash dropWhile_no_newline)

lemma RuleGrammar_start_space: "RuleGrammar_start (CHR '' '' # s) = RuleGrammar_start s"
  by (simp add: RuleGrammar_start_eq)

lemma plus_loop_space: "plus_loop (CHR '' '' # s) = plus_loop s"
  by (simp add: plus_loop.simps [of "CHR '' '' # s"] plus_loop.simps [of s]
      RuleGrammar_start_space)

lemma RuleGrammar_start_no_newline:
  assumes "NL \<notin> set (c # s)" and "c \<noteq> CHR '' ''" and "ascii_char c"
  shows "RuleGrammar_start (c # s) = Match (rule_of c) s"
proof -
  have "skip_over (c # s) = c # s"
    using assms by (cases "c = CHR ''#''") (simp_all add: skip_over_open_comment)
  with assms show ?thesis
    by (auto simp: RuleGrammar_start_eq rule_of_def WordRuleFactory_def)
qed

lemma plus_loop_no_newline:
  "NL \<notin> set s \<Longrightarrow> \<forall>c\<in>set s. ascii_char c \<Longrightarrow>
   plus_loop s = Match (map rule_of (filter (\<lambda>c. c \<noteq> CHR '' '') s)) []"
proof (induction s)
  case Nil
  show ?case by (simp add: plus_loop.simps [of "[]"] RuleGrammar_start_eq)
next
  case (Cons c s)
  show ?case
  proof (cases "c = CHR '' ''")
    case True
    with Cons show ?thesis by (simp add: plus_loop_space)
  next
    case False
    with Cons.prems have "RuleGrammar_start (c # s) = Match (rule_of c) s"
      by (intro RuleGrammar_start_no_newline) simp_all
    with Cons False show ?thesis
      by (simp add: plus_loop.simps [of "c # s"])
  qed
qed

lemma RuleGrammar_start_non_ascii:
  assumes "\<not> ascii_char c"
  shows "RuleGrammar_start (c # s) = Fail (c # s)"
proof -
  from assms have "c \<noteq> CHR '' ''" "c \<noteq> CHR ''#''" "c \<noteq> CHR ''F''" "c \<noteq> CHR ''f''"
    by (auto simp: ascii_char_def)
  with assms show ?thesis
    by (simp add: RuleGrammar_start_eq)
qed

lemma plus_loop_open:
  "NL \<notin> set s \<Longrightarrow>
   plus_loop s =
     Match (map rule_of (filter (\<lambda>c. c \<noteq> CHR '' '') (takeWhile ascii_char s)))
       (dropWhile ascii_char s)"
proof (induction s)
  case Nil
  show ?case by (simp add: plus_loop.simps [of "[]"] RuleGrammar_start_eq)
next
  case (Cons c s)
  show ?case
  proof (cases "ascii_char c")
    case False
    then show ?thesis
      by (simp add: plus_loop.simps [of "c # s"] RuleGrammar_start_non_ascii)
  next
    case True
    show ?thesis
    proof (cases "c = CHR '' ''")
      case sp: True
      with Cons True show ?thesis by (simp add: plus_loop_space)
    next
      case False
      with Cons.prems True have "RuleGrammar_start (c # s) = Match (rule_of c) s"
        by (intro RuleGrammar_start_no_newline) simp_all
      with Cons False True show ?thesis
        by (simp add: plus_loop.simps [of "c # s"])
    qed
  qed
qed

section \<open>Locality of the scanners\<close>

text \<open>
  Two remainders agree when one is the other with a text inserted that is empty or
  begins with \<open>#\<close> or a newline. A scanner that stopped inside the common part, or
  at the place of the insertion, stops there on both.
\<close>

definition agree :: "string \<Rightarrow> string \<Rightarrow> bool" where
  "agree w w' \<longleftrightarrow>
     (\<exists>u z y. w = u @ y \<and> w' = u @ z @ y \<and> (z = [] \<or> hd z = CHR ''#'' \<or> hd z = NL))"

lemma agree_refl: "agree w w"
  unfolding agree_def by (rule exI [of _ w], rule exI [of _ "[]"], rule exI [of _ "[]"]) simp

lemma agree_stop:
  assumes "agree w w'" and "\<not> P CHR ''#''" and "\<not> P NL" and "w = [] \<or> \<not> P (hd w)"
  shows "w' = [] \<or> \<not> P (hd w')"
proof -
  from assms(1) obtain u z y where
    a: "w = u @ y" "w' = u @ z @ y" "z = [] \<or> hd z = CHR ''#'' \<or> hd z = NL"
    unfolding agree_def by blast
  show ?thesis
  proof (cases u)
    case Nil
    with a assms(2-4) show ?thesis
      by (cases z) auto
  next
    case (Cons c u')
    with a assms(4) show ?thesis by simp
  qed
qed

lemma agree_stop_set:
  assumes "agree w w'" and "CHR ''#'' \<notin> S" and "NL \<notin> S" and "w = [] \<or> hd w \<notin> S"
  shows "w' = [] \<or> hd w' \<notin> S"
  using agree_stop [where P = "\<lambda>c. c \<in> S", OF assms] .

lemma agree_Cons: "agree w w' \<Longrightarrow> agree (c # w) (c # w')"
  unfolding agree_def
  by (metis append_Cons)

lemma agree_append: "agree w w' \<Longrightarrow> agree (k @ w) (k @ w')"
  by (induction k) (auto intro: agree_Cons)

lemma agree_ConsD:
  assumes "agree (c # w) w'"
  shows "(\<exists>w''. w' = c # w'' \<and> agree w w'') \<or> (w' \<noteq> [] \<and> (hd w' = CHR ''#'' \<or> hd w' = NL))"
proof -
  from assms obtain u z y where
    a: "c # w = u @ y" "w' = u @ z @ y" "z = [] \<or> hd z = CHR ''#'' \<or> hd z = NL"
    unfolding agree_def by blast
  show ?thesis
  proof (cases u)
    case Nil
    with a show ?thesis
      by (cases z) (auto intro: agree_refl)
  next
    case (Cons d u')
    with a have "w' = c # (u' @ z @ y)" "w = u' @ y" by auto
    with a(3) show ?thesis unfolding agree_def by blast
  qed
qed

lemma span_agree:
  assumes "dropWhile P (k @ w) = k' @ w" and "agree w w'"
    and "\<not> P CHR ''#''" and "\<not> P NL"
  shows "takeWhile P (k @ w') = takeWhile P (k @ w) \<and> dropWhile P (k @ w') = k' @ w'"
proof -
  define ds where "ds = takeWhile P (k @ w)"
  have "ds @ k' @ w = k @ w"
    using assms(1) takeWhile_dropWhile_id [of P "k @ w"] by (simp add: ds_def)
  then have k: "k = ds @ k'"
    by simp
  have all: "\<forall>d\<in>set ds. P d"
    by (auto simp: ds_def dest: set_takeWhileD)
  have "k' @ w = [] \<or> \<not> P (hd (k' @ w))"
    using assms(1) hd_dropWhile [of P "k @ w"] by (cases "k' @ w = []") auto
  then have stop: "k' @ w' = [] \<or> \<not> P (hd (k' @ w'))"
    using agree_stop [OF agree_append [OF assms(2), of k'] assms(3,4)] by blast
  have e: "k @ w' = ds @ k' @ w'"
    using k by simp
  have t1: "takeWhile P (ds @ k' @ w') = ds"
    using all stop by (cases "k' @ w'") (simp_all add: takeWhile_append2)
  have t2: "dropWhile P (ds @ k' @ w') = k' @ w'"
    using all stop by (cases "k' @ w'") (simp_all add: dropWhile_append2)
  have "takeWhile P (k @ w') = ds \<and> dropWhile P (k @ w') = k' @ w'"
    unfolding e using t1 t2 by simp
  then show ?thesis
    by (simp add: ds_def)
qed

lemma is_digit_stop: "\<not> is_digit CHR ''#''" "\<not> is_digit NL"
  by (simp_all add: is_digit_def)

lemma extract_uint_agree:
  assumes "extract_uint (k @ w) = Some (ds, k' @ w)" and "agree w w'"
  shows "extract_uint (k @ w') = Some (ds, k' @ w')"
proof -
  from assms(1) have d: "dropWhile is_digit (k @ w) = k' @ w"
    and t: "takeWhile is_digit (k @ w) = ds" "ds \<noteq> []"
    by (auto simp: extract_uint_def split: if_splits)
  from span_agree [OF d assms(2) is_digit_stop] t show ?thesis
    by (simp add: extract_uint_def)
qed

lemma extract_uint_None_agree:
  assumes "extract_uint w = None" and "agree w w'"
  shows "extract_uint w' = None"
proof -
  from assms(1) have "w = [] \<or> \<not> is_digit (hd w)"
    by (cases w) (auto simp: extract_uint_def split: if_splits)
  from agree_stop [OF assms(2) is_digit_stop this] show ?thesis
    by (cases w') (auto simp: extract_uint_def)
qed


lemma extract_uint_shorter: "extract_uint s = Some (ds, r) \<Longrightarrow> length r < length s"
proof -
  assume a: "extract_uint s = Some (ds, r)"
  then have "ds \<noteq> []" "ds @ r = s"
    using takeWhile_dropWhile_id [of is_digit s]
    by (auto simp: extract_uint_def split: if_splits)
  then show ?thesis by (cases ds) auto
qed

lemma extract_int_shorter: "extract_int s = Some (v, r) \<Longrightarrow> length r < length s"
  by (auto simp: extract_int_def Let_def split: list.splits option.splits if_splits
      dest!: extract_uint_shorter)

lemma extract_int_agree:
  assumes "extract_int (k @ w) = Some (v, k' @ w)" and "agree w w'"
  shows "extract_int (k @ w') = Some (v, k' @ w')"
proof (cases k)
  case Nil
  with assms(1) extract_int_shorter [of w v "k' @ w"] show ?thesis by simp
next
  case (Cons c k1)
  show ?thesis
  proof (cases "c = CHR ''-'' \<or> c = CHR ''+''")
    case True
    with assms(1) Cons obtain ds where
      u: "extract_uint (k1 @ w) = Some (ds, k' @ w)"
      and v: "v = (if c = CHR ''-'' then - int (digits_value ds) else int (digits_value ds))"
        "- (2 ^ 31) \<le> v \<and> v \<le> 2 ^ 31 - 1"
      by (auto simp: extract_int_def Let_def split: option.splits if_splits)
    from extract_uint_agree [OF u assms(2)] v True Cons show ?thesis
      by (auto simp: extract_int_def Let_def)
  next
    case False
    with assms(1) Cons obtain ds where
      u: "extract_uint (k @ w) = Some (ds, k' @ w)"
      and v: "v = int (digits_value ds)" "- (2 ^ 31) \<le> v \<and> v \<le> 2 ^ 31 - 1"
      by (auto simp: extract_int_def Let_def split: option.splits if_splits)
    from extract_uint_agree [OF u assms(2)] v False Cons show ?thesis
      by (auto simp: extract_int_def Let_def)
  qed
qed

text \<open>The policies that look at one character.\<close>

lemma parse_sign_agree:
  assumes "parse_sign (k @ w) = (b, k' @ w)" and "agree w w'"
  shows "parse_sign (k @ w') = (b, k' @ w')"
proof (cases k)
  case Nil
  with assms(1) have "k' = []" and n: "w = [] \<or> hd w \<notin> {CHR ''-'', CHR ''+''}" and "\<not> b"
    by (auto simp: parse_sign_def split: list.splits if_splits)
  moreover from agree_stop_set [OF assms(2) _ _ n]
  have "w' = [] \<or> hd w' \<notin> {CHR ''-'', CHR ''+''}" by simp
  ultimately show ?thesis
    using Nil by (cases w') (auto simp: parse_sign_def)
next
  case (Cons c k1)
  with assms(1) show ?thesis
    by (auto simp: parse_sign_def split: if_splits)
qed

lemma parse_dot_agree:
  assumes "parse_dot (k @ w) = (b, k' @ w)" and "agree w w'"
  shows "parse_dot (k @ w') = (b, k' @ w')"
proof (cases k)
  case Nil
  with assms(1) have "k' = []" and n: "w = [] \<or> hd w \<notin> {CHR ''.''}" and "\<not> b"
    by (auto simp: parse_dot_def split: list.splits if_splits)
  moreover from agree_stop_set [OF assms(2) _ _ n]
  have "w' = [] \<or> hd w' \<notin> {CHR ''.''}" by simp
  ultimately show ?thesis
    using Nil by (cases w') (auto simp: parse_dot_def)
next
  case (Cons c k1)
  with assms(1) show ?thesis
    by (auto simp: parse_dot_def split: if_splits)
qed

lemma parse_exp_agree:
  assumes "parse_exp (k @ w) = (b, k' @ w)" and "agree w w'"
  shows "parse_exp (k @ w') = (b, k' @ w')"
proof (cases k)
  case Nil
  with assms(1) have "k' = []" and n: "w = [] \<or> hd w \<notin> {CHR ''e'', CHR ''E''}" and "\<not> b"
    by (auto simp: parse_exp_def split: list.splits if_splits)
  moreover from agree_stop_set [OF assms(2) _ _ n]
  have "w' = [] \<or> hd w' \<notin> {CHR ''e'', CHR ''E''}" by simp
  ultimately show ?thesis
    using Nil by (cases w') (auto simp: parse_exp_def)
next
  case (Cons c k1)
  with assms(1) show ?thesis
    by (auto simp: parse_exp_def split: if_splits)
qed


lemma string_parse_length:
  "string_parse lc uc s = Some r \<Longrightarrow> length s = length lc + length r"
  by (induction lc uc s rule: string_parse.induct) (auto split: if_splits)

lemma string_parse_agree:
  assumes "string_parse lc uc (k @ w) = Some (k' @ w)"
  shows "string_parse lc uc (k @ w') = Some (k' @ w')"
  using assms
proof (induction lc arbitrary: uc k)
  case Nil
  then show ?case by simp
next
  case (Cons l lc)
  from Cons.prems obtain u uc' where uc: "uc = u # uc'"
    by (cases uc) auto
  from string_parse_length [OF Cons.prems] obtain c k1 where k: "k = c # k1"
    by (cases k) auto
  from Cons.prems uc k have "c = l \<or> c = u" "string_parse lc uc' (k1 @ w) = Some (k' @ w)"
    by (auto split: if_splits)
  with Cons.IH [of uc' k1] uc k show ?case
    by auto
qed

lemma string_parse_None_agree:
  assumes "string_parse lc uc (k @ w) = None" and "agree w w'"
    and "CHR ''#'' \<notin> set lc \<union> set uc" and "NL \<notin> set lc \<union> set uc"
  shows "string_parse lc uc (k @ w') = None"
  using assms
proof (induction lc arbitrary: uc k w w')
  case Nil
  then show ?case by simp
next
  case (Cons l lc)
  show ?case
  proof (cases uc)
    case Nil
    then show ?thesis by simp
  next
    case uc: (Cons u uc')
    show ?thesis
    proof (cases k)
      case (Cons c k1)
      with Cons.prems uc Cons.IH [of uc' k1 w w'] show ?thesis
        by (auto split: if_splits)
    next
      case Nil
      show ?thesis
      proof (cases w)
        case wn: Nil
        with agree_stop_set [OF Cons.prems(2), of "{l, u}"] Cons.prems(3,4) uc
        have "w' = [] \<or> hd w' \<notin> {l, u}" by auto
        with Nil uc show ?thesis by (cases w') auto
      next
        case wc: (Cons a w1)
        from agree_ConsD [OF Cons.prems(2) [unfolded wc]]
        show ?thesis
        proof
          assume "\<exists>w''. w' = a # w'' \<and> agree w1 w''"
          then obtain w'' where w'': "w' = a # w''" "agree w1 w''" by blast
          show ?thesis
          proof (cases "a = l \<or> a = u")
            case True
            with Cons.prems(1) Nil uc wc have "string_parse lc uc' ([] @ w1) = None"
              by auto
            from Cons.IH [OF this w''(2)] Cons.prems(3,4) uc
            have "string_parse lc uc' w'' = None" by auto
            with True Nil uc w'' show ?thesis by auto
          next
            case False
            with Nil uc w'' show ?thesis by auto
          qed
        next
          assume "w' \<noteq> [] \<and> (hd w' = CHR ''#'' \<or> hd w' = NL)"
          with Cons.prems(3,4) uc Nil show ?thesis
            by (cases w') auto
        qed
      qed
    qed
  qed
qed

lemma dropWhile_inner:
  assumes "dropWhile P (k @ w) = m @ w" and "m \<noteq> []"
  shows "dropWhile P (k @ w') = m @ w'"
proof -
  define ds where "ds = takeWhile P (k @ w)"
  have "ds @ m @ w = k @ w"
    using assms(1) takeWhile_dropWhile_id [of P "k @ w"] by (simp add: ds_def)
  then have k: "k = ds @ m"
    by simp
  have all: "\<forall>d\<in>set ds. P d"
    by (auto simp: ds_def dest: set_takeWhileD)
  have "\<not> P (hd (m @ w))"
    using assms hd_dropWhile [of P "k @ w"] by auto
  then have "\<not> P (hd m)"
    using assms(2) by simp
  then have "dropWhile P (ds @ m @ w') = m @ w'"
    using all assms(2) by (cases m) (simp_all add: dropWhile_append2)
  then show ?thesis
    using k by simp
qed


lemma suffix_appendE:
  assumes "suffix (k' @ w) s"
  obtains k where "s = k @ w"
  using assms unfolding suffix_def by (metis append.assoc)

lemma dropWhile_tail_suffix: "dropWhile P t = q # r \<Longrightarrow> suffix r (c # t)"
  by (metis suffix_dropWhile suffix_ConsD suffix_ConsI)

lemma parse_nan_True_agree:
  assumes "parse_nan (k @ w) = (True, k' @ w)" and "agree w w'"
  shows "parse_nan (k @ w') = (True, k' @ w')"
proof -
  from assms(1) obtain c r where s: "k @ w = c # r" and c: "c = CHR ''n'' \<or> c = CHR ''N''"
    by (auto simp: parse_nan_def split: list.splits if_splits)
  from assms(1) s c obtain s1 where s1: "string_parse ''nan'' ''NAN'' (k @ w) = Some s1"
    by (auto simp: parse_nan_def simp del: string_parse.simps split: option.splits if_splits)
  have res1: "(case s1 of
        [] \<Rightarrow> (True, s1)
      | p # r1 \<Rightarrow>
          if p = CHR ''('' then
            (case dropWhile (\<lambda>x. x \<noteq> CHR '')'') r1 of
               [] \<Rightarrow> (False, s1)
             | q # r2 \<Rightarrow> (True, r2))
          else (True, s1)) = (True, k' @ w)"
    using assms(1) s1 s c
    by (auto simp: parse_nan_def simp del: string_parse.simps)
  have "suffix (k' @ w) s1"
    using res1
    by (auto split: list.splits if_splits intro: dropWhile_tail_suffix)
  then obtain k1 where k1: "s1 = k1 @ w"
    by (rule suffix_appendE)
  have "length (k @ w) = 3 + length (k1 @ w)"
    using string_parse_length [OF s1] k1 by simp
  then have "k \<noteq> []"
    by auto
  then obtain c' k0 where k: "k = c' # k0"
    by (cases k) auto
  with s have cc: "c' = c" by simp
  have sp: "string_parse ''nan'' ''NAN'' (k @ w') = Some (k1 @ w')"
    using s1 [unfolded k1] by (rule string_parse_agree)
  have res: "(case k1 @ w of
        [] \<Rightarrow> (True, k1 @ w)
      | p # r1 \<Rightarrow>
          if p = CHR ''('' then
            (case dropWhile (\<lambda>x. x \<noteq> CHR '')'') r1 of
               [] \<Rightarrow> (False, k1 @ w)
             | q # r2 \<Rightarrow> (True, r2))
          else (True, k1 @ w)) = (True, k' @ w)"
    using res1 unfolding k1 .
  have "(case k1 @ w' of
        [] \<Rightarrow> (True, k1 @ w')
      | p # r1 \<Rightarrow>
          if p = CHR ''('' then
            (case dropWhile (\<lambda>x. x \<noteq> CHR '')'') r1 of
               [] \<Rightarrow> (False, k1 @ w')
             | q # r2 \<Rightarrow> (True, r2))
          else (True, k1 @ w')) = (True, k' @ w')"
  proof (cases k1)
    case Nil
    have "k' = [] \<and> (w = [] \<or> hd w \<notin> {CHR ''(''})"
    proof (cases w)
      case wn: Nil
      with res Nil show ?thesis by simp
    next
      case (Cons a w1)
      show ?thesis
      proof (cases "a = CHR ''(''")
        case True
        show ?thesis
        proof (cases "dropWhile (\<lambda>x. x \<noteq> CHR '')'') w1")
          case dn: Nil
          with res Nil Cons True show ?thesis by simp
        next
          case dc: (Cons q r2)
          with res Nil Cons True have "r2 = k' @ w" by simp
          moreover have "length (q # r2) \<le> length w1"
            using length_dropWhile_le [of "\<lambda>x. x \<noteq> CHR '')''" w1] dc by simp
          ultimately show ?thesis using Cons by simp
        qed
      next
        case False
        with res Nil Cons show ?thesis by simp
      qed
    qed
    then have k': "k' = []" and n: "w = [] \<or> hd w \<notin> {CHR ''(''}"
      by simp_all
    from agree_stop_set [OF assms(2) _ _ n] have "w' = [] \<or> hd w' \<notin> {CHR ''(''}"
      by simp
    with Nil k' show ?thesis by (cases w') auto
  next
    case (Cons p k2)
    show ?thesis
    proof (cases "p = CHR ''(''")
      case True
      with res Cons obtain q where d: "dropWhile (\<lambda>x. x \<noteq> CHR '')'') (k2 @ w) = (q # k') @ w"
        by (auto split: list.splits)
      from dropWhile_inner [OF d, of w'] Cons True show ?thesis
        by simp
    next
      case False
      with res Cons show ?thesis by auto
    qed
  qed
  with sp k cc c show ?thesis
    by (auto simp: parse_nan_def simp del: string_parse.simps)
qed


lemma parse_nan_False:
  assumes "parse_nan s = (False, t)"
  shows "t = s \<or> (\<exists>r. t = CHR ''('' # r)"
proof (cases "string_parse ''nan'' ''NAN'' s")
  case None
  with assms show ?thesis
    by (auto simp: parse_nan_def simp del: string_parse.simps split: list.splits if_splits)
next
  case (Some s1)
  with assms show ?thesis
    by (cases s; cases s1)
      (auto simp: parse_nan_def simp del: string_parse.simps split: list.splits if_splits)
qed

lemma parse_nan_False_agree:
  assumes "parse_nan (k @ w) = (False, k @ w)" and "agree w w'"
  shows "parse_nan (k @ w') = (False, k @ w')"
proof -
  have sp: "string_parse ''nan'' ''NAN'' (k @ w') = None"
    if "string_parse ''nan'' ''NAN'' (k @ w) = None"
    using that assms(2) by (rule string_parse_None_agree) simp_all
  have first: "k @ w' = [] \<or> hd (k @ w') \<notin> {CHR ''n'', CHR ''N''}"
    if "k @ w = [] \<or> hd (k @ w) \<notin> {CHR ''n'', CHR ''N''}"
    using agree_stop_set [OF agree_append [OF assms(2), of k] _ _ that] by simp
  show ?thesis
  proof (cases "string_parse ''nan'' ''NAN'' (k @ w)")
    case None
    from sp [OF this] show ?thesis
      by (cases "k @ w'") (auto simp: parse_nan_def simp del: string_parse.simps)
  next
    case (Some s1)
    have "length (k @ w) = 3 + length s1"
      using string_parse_length [OF Some] by simp
    with assms(1) Some have "k @ w = [] \<or> hd (k @ w) \<notin> {CHR ''n'', CHR ''N''}"
      by (cases "k @ w"; cases s1)
        (auto simp: parse_nan_def simp del: string_parse.simps split: list.splits if_splits)
    from first [OF this] show ?thesis
      by (cases "k @ w'") (auto simp: parse_nan_def simp del: string_parse.simps)
  qed
qed

lemma parse_inf_False: "parse_inf s = (False, t) \<Longrightarrow> t = s"
  by (auto simp: parse_inf_def simp del: string_parse.simps
      split: list.splits if_splits option.splits)

lemma parse_inf_False_agree:
  assumes "parse_inf (k @ w) = (False, k @ w)" and "agree w w'"
  shows "parse_inf (k @ w') = (False, k @ w')"
proof -
  have sp: "string_parse ''inf'' ''INF'' (k @ w') = None"
    if "string_parse ''inf'' ''INF'' (k @ w) = None"
    using that assms(2) by (rule string_parse_None_agree) simp_all
  have first: "k @ w' = [] \<or> hd (k @ w') \<notin> {CHR ''i'', CHR ''I''}"
    if "k @ w = [] \<or> hd (k @ w) \<notin> {CHR ''i'', CHR ''I''}"
    using agree_stop_set [OF agree_append [OF assms(2), of k] _ _ that] by simp
  show ?thesis
  proof (cases "string_parse ''inf'' ''INF'' (k @ w)")
    case None
    from sp [OF this] show ?thesis
      by (cases "k @ w'") (auto simp: parse_inf_def simp del: string_parse.simps)
  next
    case (Some s1)
    with assms(1) have "k @ w = [] \<or> hd (k @ w) \<notin> {CHR ''i'', CHR ''I''}"
      by (cases "k @ w")
        (auto simp: parse_inf_def simp del: string_parse.simps split: option.splits if_splits)
    from first [OF this] show ?thesis
      by (cases "k @ w'") (auto simp: parse_inf_def simp del: string_parse.simps)
  qed
qed

lemma parse_inf_True_agree:
  assumes "parse_inf (k @ w) = (True, k' @ w)" and "agree w w'"
  shows "parse_inf (k @ w') = (True, k' @ w')"
proof -
  from assms(1) obtain c r where s: "k @ w = c # r" and c: "c = CHR ''i'' \<or> c = CHR ''I''"
    by (auto simp: parse_inf_def split: list.splits if_splits)
  from assms(1) s c obtain s1 where s1: "string_parse ''inf'' ''INF'' (k @ w) = Some s1"
    by (auto simp: parse_inf_def simp del: string_parse.simps split: option.splits if_splits)
  have res1: "(case string_parse ''inity'' ''INITY'' s1 of
      None \<Rightarrow> (True, s1) | Some s2 \<Rightarrow> (True, s2)) = (True, k' @ w)"
    using assms(1) s1 s c
    by (auto simp: parse_inf_def simp del: string_parse.simps)
  have "suffix (k' @ w) s1"
    using res1
    by (auto simp del: string_parse.simps split: option.splits dest: string_parse_suffix)
  then obtain k1 where k1: "s1 = k1 @ w"
    by (rule suffix_appendE)
  have "length (k @ w) = 3 + length (k1 @ w)"
    using string_parse_length [OF s1] k1 by simp
  then have "k \<noteq> []"
    by auto
  then obtain c' k0 where k: "k = c' # k0"
    by (cases k) auto
  with s have cc: "c' = c" by simp
  have sp: "string_parse ''inf'' ''INF'' (k @ w') = Some (k1 @ w')"
    using s1 [unfolded k1] by (rule string_parse_agree)
  have "(case string_parse ''inity'' ''INITY'' (k1 @ w') of
      None \<Rightarrow> (True, k1 @ w') | Some s2 \<Rightarrow> (True, s2)) = (True, k' @ w')"
  proof (cases "string_parse ''inity'' ''INITY'' (k1 @ w)")
    case None
    then have "string_parse ''inity'' ''INITY'' (k1 @ w') = None"
      using assms(2) by (rule string_parse_None_agree) simp_all
    moreover from None res1 k1 have "k' = k1" by simp
    ultimately show ?thesis by simp
  next
    case (Some s2)
    with res1 k1 have "string_parse ''inity'' ''INITY'' (k1 @ w) = Some (k' @ w)"
      by simp
    then have "string_parse ''inity'' ''INITY'' (k1 @ w') = Some (k' @ w')"
      by (rule string_parse_agree)
    then show ?thesis by simp
  qed
  with sp k cc c show ?thesis
    by (auto simp: parse_inf_def simp del: string_parse.simps)
qed


lemma real_exponent_agree:
  assumes "real_exponent neg ds fd (k @ w) = Some (v, k' @ w)" and "agree w w'"
  shows "real_exponent neg ds fd (k @ w') = Some (v, k' @ w')"
proof -
  obtain b s1 where e: "parse_exp (k @ w) = (b, s1)"
    by (cases "parse_exp (k @ w)")
  show ?thesis
  proof (cases b)
    case True
    with assms(1) e obtain x where
      i: "extract_int s1 = Some (x, k' @ w)"
      and v: "v = negate neg (Finite (scale10 (x - int fd) (of_nat (digits_value ds))))"
      by (auto simp: real_exponent_def Let_def split: option.splits)
    from extract_int_suffix [OF i] obtain k1 where k1: "s1 = k1 @ w"
      by (rule suffix_appendE)
    from parse_exp_agree [OF e [unfolded k1] assms(2)] extract_int_agree [OF i [unfolded k1] assms(2)]
      True v show ?thesis
      by (simp add: real_exponent_def Let_def)
  next
    case False
    with assms(1) e have s1: "s1 = k' @ w"
      and v: "v = negate neg (Finite (scale10 (- int fd) (of_nat (digits_value ds))))"
      by (auto simp: real_exponent_def Let_def)
    from parse_exp_agree [OF e [unfolded s1] assms(2)] False v show ?thesis
      by (simp add: real_exponent_def Let_def)
  qed
qed

lemma real_after_number_agree:
  assumes "real_after_number neg ds (k @ w) = Some (v, k' @ w)" and "agree w w'"
  shows "real_after_number neg ds (k @ w') = Some (v, k' @ w')"
proof -
  obtain b s1 where d: "parse_dot (k @ w) = (b, s1)"
    by (cases "parse_dot (k @ w)")
  show ?thesis
  proof (cases b)
    case True
    show ?thesis
    proof (cases "extract_uint s1")
      case None
      with assms(1) d True have x: "real_exponent neg ds 0 s1 = Some (v, k' @ w)"
        by (simp add: real_after_number_def)
      from real_exponent_suffix [OF x] obtain k1 where k1: "s1 = k1 @ w"
        by (rule suffix_appendE)
      from None k1 have "extract_uint (k1 @ w') = None"
        using extract_uint_None_agree [OF _ agree_append [OF assms(2)]] by simp
      with parse_dot_agree [OF d [unfolded k1] assms(2)]
        real_exponent_agree [OF x [unfolded k1] assms(2)] True
      show ?thesis
        by (simp add: real_after_number_def)
    next
      case (Some a)
      then obtain fs s2 where u: "extract_uint s1 = Some (fs, s2)"
        by (cases a) auto
      with assms(1) d True have
        x: "real_exponent neg (ds @ fs) (length fs) s2 = Some (v, k' @ w)"
        by (simp add: real_after_number_def)
      from real_exponent_suffix [OF x] obtain k2 where k2: "s2 = k2 @ w"
        by (rule suffix_appendE)
      from extract_uint_suffix [OF u] k2 obtain k1 where k1: "s1 = k1 @ w"
        by (auto elim: suffix_appendE)
      from parse_dot_agree [OF d [unfolded k1] assms(2)]
        extract_uint_agree [OF u [unfolded k1 k2] assms(2)]
        real_exponent_agree [OF x [unfolded k2] assms(2)] True
      show ?thesis
        by (simp add: real_after_number_def)
    qed
  next
    case False
    with assms(1) d have x: "real_exponent neg ds 0 s1 = Some (v, k' @ w)"
      by (simp add: real_after_number_def)
    from real_exponent_suffix [OF x] obtain k1 where k1: "s1 = k1 @ w"
      by (rule suffix_appendE)
    from parse_dot_agree [OF d [unfolded k1] assms(2)]
      real_exponent_agree [OF x [unfolded k1] assms(2)] False
    show ?thesis
      by (simp add: real_after_number_def)
  qed
qed


lemma real_no_number_agree:
  assumes "real_no_number neg (k @ w) = Some (v, k' @ w)" and "agree w w'"
  shows "real_no_number neg (k @ w') = Some (v, k' @ w')"
proof -
  obtain b1 s1 where n: "parse_nan (k @ w) = (b1, s1)"
    by (cases "parse_nan (k @ w)")
  show ?thesis
  proof (cases b1)
    case True
    with assms(1) n have "s1 = k' @ w" "v = negate neg NaN"
      by (auto simp: real_no_number_def)
    with parse_nan_True_agree [OF _ assms(2), of k k'] n True show ?thesis
      by (simp add: real_no_number_def)
  next
    case False
    have s1: "s1 = k @ w"
    proof (rule ccontr)
      assume "s1 \<noteq> k @ w"
      with parse_nan_False [of "k @ w" s1] n False obtain r where "s1 = CHR ''('' # r"
        by auto
      then have "parse_inf s1 = (False, s1)" "parse_dot s1 = (False, s1)"
        by (simp_all add: parse_inf_def parse_dot_def)
      with assms(1) n False show False
        by (simp add: real_no_number_def)
    qed
    have n0: "parse_nan (k @ w) = (False, k @ w)"
      using n False unfolding s1 by simp
    have n': "parse_nan (k @ w') = (False, k @ w')"
      using n0 assms(2) by (rule parse_nan_False_agree)
    obtain b2 s2 where i: "parse_inf (k @ w) = (b2, s2)"
      by (cases "parse_inf (k @ w)")
    show ?thesis
    proof (cases b2)
      case True
      with assms(1) n0 i have "s2 = k' @ w" "v = negate neg (Infinity False)"
        by (auto simp: real_no_number_def)
      with parse_inf_True_agree [OF _ assms(2), of k k'] i True n' show ?thesis
        by (simp add: real_no_number_def)
    next
      case b2: False
      with i have "parse_inf (k @ w) = (False, s2)"
        by simp
      then have s2: "s2 = k @ w"
        by (rule parse_inf_False)
      have i0: "parse_inf (k @ w) = (False, k @ w)"
        using i b2 unfolding s2 by simp
      have i': "parse_inf (k @ w') = (False, k @ w')"
        using i0 assms(2) by (rule parse_inf_False_agree)
      obtain b3 s3 where d: "parse_dot (k @ w) = (b3, s3)"
        by (cases "parse_dot (k @ w)")
      have "real_no_number neg (k @ w) =
        (if b3 then (case extract_uint s3 of
            Some (fs, s4) \<Rightarrow> real_exponent neg fs (length fs) s4
          | None \<Rightarrow> None) else None)"
        by (cases b3) (simp_all add: real_no_number_def n0 i0 d)
      with assms(1) obtain fs s4 where
        b3: "b3" and u: "extract_uint s3 = Some (fs, s4)"
        and x: "real_exponent neg fs (length fs) s4 = Some (v, k' @ w)"
        by (cases b3; cases "extract_uint s3") auto
      from real_exponent_suffix [OF x] obtain k4 where k4: "s4 = k4 @ w"
        by (rule suffix_appendE)
      from extract_uint_suffix [OF u] k4 obtain k3 where k3: "s3 = k3 @ w"
        by (auto elim: suffix_appendE)
      from parse_dot_agree [OF d [unfolded k3] assms(2)]
        extract_uint_agree [OF u [unfolded k3 k4] assms(2)]
        real_exponent_agree [OF x [unfolded k4] assms(2)] b3 n' i'
      show ?thesis
        by (simp add: real_no_number_def)
    qed
  qed
qed

lemma agree_nonempty: "agree w w' \<Longrightarrow> w \<noteq> [] \<Longrightarrow> w' \<noteq> []"
  unfolding agree_def by auto

lemma real_impl_parse_unfold:
  "s \<noteq> [] \<Longrightarrow> real_impl_parse s =
     (case parse_sign s of
        (neg, s1) \<Rightarrow>
          (case extract_uint s1 of
             Some (ds, s2) \<Rightarrow> real_after_number neg ds s2
           | None \<Rightarrow> real_no_number neg s1))"
  by (simp add: real_impl_parse_def)

lemma real_impl_parse_agree:
  assumes "real_impl_parse (k @ w) = Some (v, k' @ w)" and "agree w w'"
  shows "real_impl_parse (k @ w') = Some (v, k' @ w')"
proof -
  from assms(1) have ne: "k @ w \<noteq> []"
    by (auto simp: real_impl_parse_def)
  have ne': "k @ w' \<noteq> []"
    using ne agree_nonempty [OF assms(2)] by (cases k) auto
  obtain neg s1 where sg: "parse_sign (k @ w) = (neg, s1)"
    by (cases "parse_sign (k @ w)")
  show ?thesis
  proof (cases "extract_uint s1")
    case None
    with assms(1) sg have x: "real_no_number neg s1 = Some (v, k' @ w)"
      by (simp add: real_impl_parse_unfold [OF ne])
    from real_no_number_suffix [OF x] obtain k1 where k1: "s1 = k1 @ w"
      by (rule suffix_appendE)
    from None k1 have "extract_uint (k1 @ w') = None"
      using extract_uint_None_agree [OF _ agree_append [OF assms(2)]] by simp
    with parse_sign_agree [OF sg [unfolded k1] assms(2)]
      real_no_number_agree [OF x [unfolded k1] assms(2)]
    show ?thesis
      by (simp add: real_impl_parse_unfold [OF ne'])
  next
    case (Some a)
    then obtain ds s2 where u: "extract_uint s1 = Some (ds, s2)"
      by (cases a) auto
    with assms(1) sg have x: "real_after_number neg ds s2 = Some (v, k' @ w)"
      by (simp add: real_impl_parse_unfold [OF ne])
    from real_after_number_suffix [OF x] obtain k2 where k2: "s2 = k2 @ w"
      by (rule suffix_appendE)
    from extract_uint_suffix [OF u] k2 obtain k1 where k1: "s1 = k1 @ w"
      by (auto elim: suffix_appendE)
    from parse_sign_agree [OF sg [unfolded k1] assms(2)]
      extract_uint_agree [OF u [unfolded k1 k2] assms(2)]
      real_after_number_agree [OF x [unfolded k2] assms(2)]
    show ?thesis
      by (simp add: real_impl_parse_unfold [OF ne'])
  qed
qed


lemma no_open_comment_append: "no_open_comment (k @ r) \<Longrightarrow> no_open_comment r"
  by (induction k) auto

lemma no_open_comment_suffix: "suffix r s \<Longrightarrow> no_open_comment s \<Longrightarrow> no_open_comment r"
  by (auto simp: suffix_def dest: no_open_comment_append)

lemma dropWhile_newline_append:
  "NL \<in> set r \<Longrightarrow> dropWhile (\<lambda>x. x \<noteq> NL) (r @ x) = dropWhile (\<lambda>x. x \<noteq> NL) r @ x"
  by (rule dropWhile_append1 [of NL]) simp_all

lemma skip_over_append_newline:
  "no_open_comment s \<Longrightarrow> skip_over (s @ NL # x) = skip_over s @ NL # x"
proof (induction s rule: skip_over.induct)
  case (1 s)
  show ?case
  proof (cases s)
    case Nil
    then show ?thesis by simp
  next
    case (Cons c r)
    show ?thesis
    proof (cases "c = CHR '' ''")
      case True
      have "CommentSkipper_start s = Match () r"
        using Cons True by (simp add: CommentSkipper_start_def)
      from "1.IH" [OF this] "1.prems" Cons True show ?thesis
        by simp
    next
      case False
      show ?thesis
      proof (cases "c = CHR ''#''")
        case h: True
        with "1.prems" Cons have nl: "NL \<in> set r" by simp
        then obtain n r' where d: "dropWhile (\<lambda>x. x \<noteq> NL) r = n # r'"
          by (cases "dropWhile (\<lambda>x. x \<noteq> NL) r") (auto simp: dropWhile_eq_Nil_conv)
        have m: "CommentSkipper_start s = Match () r'"
          using Cons h d by (simp add: CommentSkipper_start_def)
        have "suffix r' s"
          using Cons d by (auto intro: dropWhile_tail_suffix)
        then have "no_open_comment r'"
          using "1.prems" by (rule no_open_comment_suffix)
        from "1.IH" [OF m this] Cons h d nl show ?thesis
          by (simp add: skip_over_hash dropWhile_newline_append)
      next
        case o: False
        with False Cons show ?thesis by simp
      qed
    qed
  qed
qed

section \<open>Text after the document\<close>

text \<open>
  When a newline is appended to a text without open comment, every parser that
  matched matches again with the same attribute, and the symbol rule fails where it
  failed.
\<close>

lemma agree_Nil_newline: "agree [] (NL # x)"
  unfolding agree_def
  by (rule exI [of _ "[]"], rule exI [of _ "NL # x"], rule exI [of _ "[]"]) simp

lemma Match_remainder_suffix: "inside s (p :: 'a result) \<Longrightarrow> p = Match a r \<Longrightarrow> suffix r s"
  by simp

lemma no_open_comment_Match:
  "p = Match a r \<Longrightarrow> inside s p \<Longrightarrow> no_open_comment s \<Longrightarrow> no_open_comment r"
  by (auto intro: no_open_comment_suffix)

lemma qi_int_Match: "qi_int s = Match v r \<longleftrightarrow> extract_int (skip_over s) = Some (v, r)"
  by (auto simp: qi_int_def Let_def split: option.splits)

lemma qi_double_Match: "qi_double s = Match v r \<longleftrightarrow> real_impl_parse (skip_over s) = Some (v, r)"
  by (auto simp: qi_double_def Let_def split: option.splits)

lemma lit_append_newline:
  assumes "lit w s = Match u r" and "no_open_comment s"
  shows "lit w (s @ NL # x) = Match u (r @ NL # x)"
  using assms by (simp add: lit_Match skip_over_append_newline)

lemma lit_char_append_newline:
  assumes "lit_char c s = Match u r" and "no_open_comment s"
  shows "lit_char c (s @ NL # x) = Match u (r @ NL # x)"
  using assms by (simp add: lit_char_Match skip_over_append_newline)

lemma qi_int_append_newline:
  assumes "qi_int s = Match v r" and "no_open_comment s"
  shows "qi_int (s @ NL # x) = Match v (r @ NL # x)"
proof -
  from assms(1) have e: "extract_int (skip_over s) = Some (v, r)"
    by (simp add: qi_int_Match)
  then have "extract_int (skip_over s @ []) = Some (v, r @ [])"
    by simp
  from extract_int_agree [OF this agree_Nil_newline] assms(2) show ?thesis
    by (simp add: qi_int_Match skip_over_append_newline)
qed

lemma qi_double_append_newline:
  assumes "qi_double s = Match v r" and "no_open_comment s"
  shows "qi_double (s @ NL # x) = Match v (r @ NL # x)"
proof -
  from assms(1) have e: "real_impl_parse (skip_over s) = Some (v, r)"
    by (simp add: qi_double_Match)
  then have "real_impl_parse (skip_over s @ []) = Some (v, r @ [])"
    by simp
  from real_impl_parse_agree [OF this agree_Nil_newline] assms(2) show ?thesis
    by (simp add: qi_double_Match skip_over_append_newline)
qed

lemma RuleGrammar_start_append_newline:
  assumes "no_open_comment s"
  shows "RuleGrammar_start s = Match a r \<Longrightarrow> RuleGrammar_start (s @ NL # x) = Match a (r @ NL # x)"
    and "RuleGrammar_start s = Fail p \<Longrightarrow> RuleGrammar_start (s @ NL # x) = Fail (p @ NL # x)"
proof -
  have e: "skip_over (s @ NL # x) = skip_over s @ NL # x"
    using assms by (rule skip_over_append_newline)
  show "RuleGrammar_start s = Match a r \<Longrightarrow> RuleGrammar_start (s @ NL # x) = Match a (r @ NL # x)"
    by (cases "skip_over s") (simp_all add: RuleGrammar_start_eq e split: if_splits)
  show "RuleGrammar_start s = Fail p \<Longrightarrow> RuleGrammar_start (s @ NL # x) = Fail (p @ NL # x)"
    by (cases "skip_over s") (auto simp: RuleGrammar_start_eq e split: if_splits)
qed

lemma lit_char_Fail_append_newline:
  assumes "lit_char c s = Fail p" and "no_open_comment s" and "c \<noteq> NL"
  shows "lit_char c (s @ NL # x) = Fail (p @ NL # x)"
  using assms
  by (auto simp: lit_char_def skip_over_append_newline split: list.splits if_splits)

lemma plus_loop_append_newline:
  "plus_loop s = Match as r \<Longrightarrow> no_open_comment s \<Longrightarrow>
   plus_loop (s @ NL # x) = Match as (r @ NL # x)"
proof (induction s arbitrary: as r rule: plus_loop.induct)
  case (1 s)
  show ?case
  proof (cases "RuleGrammar_start s")
    case (Match a r1)
    with "1.prems"(1) obtain as' where
      l: "plus_loop r1 = Match as' r" and as: "as = a # as'"
      by (auto simp: plus_loop.simps [of s] split: result.splits)
    have "suffix r1 s"
      using RuleGrammar_start_inside [of s] Match by simp
    then have "no_open_comment r1"
      using "1.prems"(2) by (rule no_open_comment_suffix)
    from "1.IH" [OF Match l this] RuleGrammar_start_append_newline(1) [OF "1.prems"(2) Match] as
    show ?thesis
      by (simp add: plus_loop.simps [of "s @ NL # x"])
  next
    case (Fail p)
    with "1.prems"(1) have "as = []" "r = p"
      by (auto simp: plus_loop.simps [of s])
    with RuleGrammar_start_append_newline(2) [OF "1.prems"(2) Fail] show ?thesis
      by (simp add: plus_loop.simps [of "s @ NL # x"])
  next
    case (Throw p w)
    with "1.prems"(1) show ?thesis
      by (simp add: plus_loop.simps [of s])
  qed
qed

lemma plus_rule_append_newline:
  assumes "plus_rule s = Match as r" and "no_open_comment s"
  shows "plus_rule (s @ NL # x) = Match as (r @ NL # x)"
proof -
  from assms(1) obtain a r1 as' where
    m: "RuleGrammar_start s = Match a r1" and l: "plus_loop r1 = Match as' r" and as: "as = a # as'"
    by (auto simp: plus_rule_def split: result.splits)
  have "suffix r1 s"
    using RuleGrammar_start_inside [of s] m by simp
  then have "no_open_comment r1"
    using assms(2) by (rule no_open_comment_suffix)
  from plus_loop_append_newline [OF l this] RuleGrammar_start_append_newline(1) [OF assms(2) m] as
  show ?thesis
    by (simp add: plus_rule_def)
qed

lemma ProductionGrammar_probability_append_newline:
  assumes "ProductionGrammar_probability s = Match d r" and "no_open_comment s"
  shows "ProductionGrammar_probability (s @ NL # x) = Match d (r @ NL # x)"
proof (cases "lit_char CHR ''('' s")
  case (Match u r1)
  with assms(1) obtain r2 where
    d: "qi_double r1 = Match d r2" and c: "lit_char CHR '')'' r2 = Match () r"
    by (auto simp: ProductionGrammar_probability_def and_then_Match expect_Match)
  have n1: "no_open_comment r1"
    using Match lit_char_inside assms(2) by (rule no_open_comment_Match)
  have n2: "no_open_comment r2"
    using d qi_double_inside n1 by (rule no_open_comment_Match)
  from lit_char_append_newline [OF Match assms(2)] qi_double_append_newline [OF d n1]
    lit_char_append_newline [OF c n2]
  show ?thesis
    by (simp add: ProductionGrammar_probability_def and_then_def expect_def)
next
  case (Fail p)
  with assms(1) have "d = Finite 1" "r = s"
    by (auto simp: ProductionGrammar_probability_def attr_def)
  with lit_char_Fail_append_newline [OF Fail assms(2)] show ?thesis
    by (simp add: ProductionGrammar_probability_def attr_def)
next
  case (Throw p w)
  then show ?thesis
    by (simp add: lit_char_def split: list.splits if_splits)
qed


lemma ProductionGrammar_production_append_newline:
  assumes "no_open_comment s"
  shows "ProductionGrammar_production s = Match p r \<Longrightarrow>
      ProductionGrammar_production (s @ NL # x) = Match p (r @ NL # x)"
    and "ProductionGrammar_production s = Fail q \<Longrightarrow>
      ProductionGrammar_production (s @ NL # x) = Fail (s @ NL # x)"
proof -
  assume m: "ProductionGrammar_production s = Match p r"
  then obtain pred r1 pr r2 r3 succ where
    a: "RuleGrammar_start s = Match pred r1" "ProductionGrammar_probability r1 = Match pr r2"
      "lit ''->'' r2 = Match () r3" "plus_rule r3 = Match succ r"
    and p: "p = \<lparr>predcessor = pred, probability = pr, successor = succ\<rparr>"
    by (auto simp: ProductionGrammar_production_def and_then_Match expect_Match
        split: result.splits)
  have n1: "no_open_comment r1"
    using a(1) RuleGrammar_start_inside assms by (rule no_open_comment_Match)
  have n2: "no_open_comment r2"
    using a(2) ProductionGrammar_probability_inside n1 by (rule no_open_comment_Match)
  have n3: "no_open_comment r3"
    using a(3) lit_inside n2 by (rule no_open_comment_Match)
  from RuleGrammar_start_append_newline(1) [OF assms a(1)]
    ProductionGrammar_probability_append_newline [OF a(2) n1]
    lit_append_newline [OF a(3) n2] plus_rule_append_newline [OF a(4) n3] p
  show "ProductionGrammar_production (s @ NL # x) = Match p (r @ NL # x)"
    by (simp add: ProductionGrammar_production_def and_then_def expect_def)
next
  assume f: "ProductionGrammar_production s = Fail q"
  have "\<exists>q'. RuleGrammar_start s = Fail q'"
  proof (cases "RuleGrammar_start s")
    case (Match pred r1)
    with f show ?thesis
      by (auto simp: ProductionGrammar_production_def and_then_def expect_def
          split: result.splits)
  next
    case (Throw q' w)
    with f show ?thesis by (simp add: ProductionGrammar_production_def)
  qed simp
  then obtain q' where "RuleGrammar_start s = Fail q'" by blast
  from RuleGrammar_start_append_newline(2) [OF assms this]
  show "ProductionGrammar_production (s @ NL # x) = Fail (s @ NL # x)"
    by (simp add: ProductionGrammar_production_def)
qed

lemma ProductionGrammar_pair_append_newline:
  assumes "no_open_comment s"
  shows "ProductionGrammar_pair s = Match val r \<Longrightarrow>
      ProductionGrammar_pair (s @ NL # x) = Match val (r @ NL # x)"
    and "ProductionGrammar_pair s = Fail q \<Longrightarrow>
      ProductionGrammar_pair (s @ NL # x) = Fail (s @ NL # x)"
  using ProductionGrammar_production_append_newline [OF assms, where x = x]
  by (auto simp: ProductionGrammar_pair_def split: result.splits)

lemma list_loop_append_blank_line:
  "list_loop c save = Match m r \<Longrightarrow> no_open_comment save \<Longrightarrow>
   list_loop c (save @ NL # NL # t) = Match m (r @ NL # NL # t)"
proof (induction c save arbitrary: m r rule: list_loop.induct)
  case (1 c save)
  let ?x = "NL # NL # t"
  show ?case
  proof (cases "lit_char NL save")
    case (Match u r1)
    have n1: "no_open_comment r1"
      using Match lit_char_inside "1.prems"(2) by (rule no_open_comment_Match)
    have sep: "lit_char NL (save @ ?x) = Match u (r1 @ ?x)"
      using Match "1.prems"(2) by (rule lit_char_append_newline)
    show ?thesis
    proof (cases "ProductionGrammar_pair r1")
      case pm: (Match val r2)
      have n2: "no_open_comment r2"
        using pm ProductionGrammar_pair_inside n1 by (rule no_open_comment_Match)
      have "list_loop (push_back c val) r2 = Match m r"
        using "1.prems"(1) Match pm by (simp add: list_loop.simps [of c save])
      from "1.IH" [OF Match pm this n2] sep
        ProductionGrammar_pair_append_newline(1) [OF n1 pm]
      show ?thesis
        by (simp add: list_loop.simps [of c "save @ ?x"])
    next
      case (Fail q)
      with "1.prems"(1) Match have "m = c" "r = save"
        by (simp_all add: list_loop.simps [of c save])
      with sep ProductionGrammar_pair_append_newline(2) [OF n1 Fail] show ?thesis
        by (simp add: list_loop.simps [of c "save @ ?x"])
    next
      case (Throw q w)
      with "1.prems"(1) Match show ?thesis
        by (simp add: list_loop.simps [of c save])
    qed
  next
    case (Fail q)
    with "1.prems"(1) have mr: "m = c" "r = save"
      by (simp_all add: list_loop.simps [of c save])
    have e: "skip_over (save @ ?x) = skip_over save @ ?x"
      using "1.prems"(2) by (rule skip_over_append_newline)
    show ?thesis
    proof (cases "skip_over save")
      case Nil
      then have "lit_char NL (save @ ?x) = Match () (NL # t)"
        by (simp add: lit_char_def e)
      moreover have "ProductionGrammar_pair (NL # t) = Fail (NL # t)"
        by (simp add: ProductionGrammar_pair_def ProductionGrammar_production_def
            RuleGrammar_start_eq)
      ultimately show ?thesis
        using mr by (simp add: list_loop.simps [of c "save @ ?x"])
    next
      case (Cons a k)
      with Fail have "a \<noteq> NL"
        by (auto simp: lit_char_def)
      with Cons have "lit_char NL (save @ ?x) = Fail (skip_over save @ ?x)"
        by (simp add: lit_char_def e)
      with mr show ?thesis
        by (simp add: list_loop.simps [of c "save @ ?x"])
    qed
  next
    case (Throw q w)
    then show ?thesis
      by (simp add: lit_char_def split: list.splits if_splits)
  qed
qed

lemma ProductionGrammar_start_append_blank_line:
  assumes "ProductionGrammar_start c s = Match m r" and "no_open_comment s"
  shows "ProductionGrammar_start c (s @ NL # NL # t) = Match m (r @ NL # NL # t)"
proof -
  from assms(1) obtain val r1 where
    p: "ProductionGrammar_pair s = Match val r1" and l: "list_loop (push_back c val) r1 = Match m r"
    by (auto simp: ProductionGrammar_start_def split: result.splits)
  have "no_open_comment r1"
    using p ProductionGrammar_pair_inside assms(2) by (rule no_open_comment_Match)
  from list_loop_append_blank_line [OF l this] ProductionGrammar_pair_append_newline(1) [OF assms(2) p]
  show ?thesis
    by (simp add: ProductionGrammar_start_def)
qed

lemma LSystemGrammar_sequence_append_blank_line:
  assumes "LSystemGrammar_sequence s = Match l r" and "no_open_comment s"
  shows "LSystemGrammar_sequence (s @ NL # NL # t) = Match l (r @ NL # NL # t)"
proof -
  let ?x = "NL # NL # t"
  from assms(1) obtain r1 r2 r3 r4 r5 r6 r7 r8 r9 where
    a: "lit ''generations:'' s = Match () r1" "qi_int r1 = Match (generations l) r2"
      "lit ''angle:'' r2 = Match () r3" "qi_double r3 = Match (angle l) r4"
      "lit ''scale:'' r4 = Match () r5" "qi_double r5 = Match (scale l) r6"
      "lit ''axiom:'' r6 = Match () r7" "plus_rule r7 = Match (axiom l) r8"
      "lit_char NL r8 = Match () r9"
      "ProductionGrammar_start Map.empty r9 = Match (productions l) r"
    unfolding LSystemGrammar_sequence_Match by blast
  have n1: "no_open_comment r1"
    using a(1) lit_inside assms(2) by (rule no_open_comment_Match)
  have n2: "no_open_comment r2"
    using a(2) qi_int_inside n1 by (rule no_open_comment_Match)
  have n3: "no_open_comment r3"
    using a(3) lit_inside n2 by (rule no_open_comment_Match)
  have n4: "no_open_comment r4"
    using a(4) qi_double_inside n3 by (rule no_open_comment_Match)
  have n5: "no_open_comment r5"
    using a(5) lit_inside n4 by (rule no_open_comment_Match)
  have n6: "no_open_comment r6"
    using a(6) qi_double_inside n5 by (rule no_open_comment_Match)
  have n7: "no_open_comment r7"
    using a(7) lit_inside n6 by (rule no_open_comment_Match)
  have n8: "no_open_comment r8"
    using a(8) plus_rule_inside n7 by (rule no_open_comment_Match)
  have n9: "no_open_comment r9"
    using a(9) lit_char_inside n8 by (rule no_open_comment_Match)
  show ?thesis
    unfolding LSystemGrammar_sequence_Match
    using lit_append_newline [OF a(1) assms(2), of "NL # t"]
      qi_int_append_newline [OF a(2) n1, of "NL # t"]
      lit_append_newline [OF a(3) n2, of "NL # t"]
      qi_double_append_newline [OF a(4) n3, of "NL # t"]
      lit_append_newline [OF a(5) n4, of "NL # t"]
      qi_double_append_newline [OF a(6) n5, of "NL # t"]
      lit_append_newline [OF a(7) n6, of "NL # t"]
      plus_rule_append_newline [OF a(8) n7, of "NL # t"]
      lit_char_append_newline [OF a(9) n8, of "NL # t"]
      ProductionGrammar_start_append_blank_line [OF a(10) n9, of t]
    by blast
qed

text \<open>
  The claim C2 as it is stated fails: a complete document followed by an empty line
  and a text that is neither white space nor a comment parses, to the L-system of
  the document.
\<close>

theorem trailing_text_accepted:
  "parse trailing_text = Inr scenario_B_result"
  by (simp add: trailing_text_def scenario_B_def scenario_B_result_def parser_defs)

text \<open>
  Claim C2, amended. The function \<open>parse\<close> does not compare the position the grammar
  reached with the end of the input. When an input parses and each \<open>#\<close> in it is
  followed by a newline, the input followed by an empty line and any text at all
  parses to the same L-system: text after the production block is not a failure.
\<close>

theorem trailing_text_after_blank_line:
  assumes "parse s = Inr l" and "no_open_comment s"
  shows "parse (s @ [NL, NL] @ t) = Inr l"
proof -
  from assms(1) obtain r where "LSystemGrammar_sequence s = Match l r"
    by (auto simp: parse_Inr)
  from LSystemGrammar_sequence_append_blank_line [OF this assms(2), of t] show ?thesis
    by (auto simp: parse_Inr)
qed

theorem trailing_text_after_blank_line_witness:
  "parse scenario_B = Inr scenario_B_result \<and> no_open_comment scenario_B \<and>
   parse (scenario_B @ [NL, NL] @ ''F -> '') = Inr scenario_B_result"
proof -
  have n: "no_open_comment scenario_B"
    by (simp add: scenario_B_def)
  from trailing_text_after_blank_line [OF parse_scenario_B n, of "''F -> ''"]
    parse_scenario_B n
  show ?thesis by simp
qed

section \<open>Accumulation of alternatives\<close>

text \<open>
  Claim C1, evaluated on the code. Two production lines of the same predecessor
  \<open>F\<close> with different successors parse, and the production map holds the first
  alternative only: the second line is dropped by \<open>push_back\<close>.
\<close>

theorem second_alternative_dropped:
  "parse scenario_B =
     Inr \<lparr>generations = 5, angle = Finite 20, scale = Finite (3 / 5),
          axiom = [MoveForwardRule],
          productions =
            [MoveForwardRule \<mapsto>
               [(Finite (1 / 2),
                 [MoveForwardRule, WordRule ''['', WordRule ''+'', MoveForwardRule,
                  WordRule '']'', MoveForwardRule])]]\<rparr>"
  using parse_scenario_B by (simp add: scenario_B_result_def)

section \<open>Diagnostics\<close>

text \<open>
  Claim C4, evaluated on the code. When the input does not begin, after spaces and
  comments, with the keyword \<^verbatim>\<open>generations:\<close>, the start rule fails without an
  expectation failure, the error handler does not run, and the message of the error
  is the bare prefix: it names no rule and shows nothing of the input.
\<close>

theorem no_diagnostic_without_first_keyword:
  assumes "\<not> prefix ''generations:'' (skip_over s)"
  shows "parse s = Inl (domain_error ''Cannot parse lsystem:'')"
  using assms
  by (simp add: parse_def phrase_parse_def LSystemGrammar_start_def
      LSystemGrammar_sequence_def lit_def)

theorem no_diagnostic_without_first_keyword_witness:
  "\<not> prefix ''generations:'' (skip_over ''foo'') \<and>
   parse ''foo'' = Inl (domain_error ''Cannot parse lsystem:'')"
  using no_diagnostic_without_first_keyword [of "''foo''"]
  by simp

section \<open>The default probability\<close>



section \<open>Symbols\<close>

text \<open>
  The claim C6 as it is stated fails on a byte outside 7-bit ASCII: it is neither a
  space nor a newline nor an alias, and it is not parsed to a word; the rule fails.
\<close>

theorem non_ascii_is_no_word:
  "CHR 0xE9 \<noteq> CHR '' '' \<and> CHR 0xE9 \<noteq> NL \<and> CHR 0xE9 \<noteq> CHR ''F'' \<and> CHR 0xE9 \<noteq> CHR ''f'' \<and>
   RuleGrammar_start [CHR 0xE9] = Fail [CHR 0xE9] \<and>
   RuleGrammar_start [CHR 0xE9] \<noteq> Match (WordRule [CHR 0xE9]) []"
  by (simp add: RuleGrammar_start_eq ascii_char_def)

text \<open>
  Claim C6, amended. At a symbol position (the first character after spaces and
  comments), \<open>F\<close> gives the built-in move-forward rule and \<open>f\<close> the built-in
  jump-forward rule, never a word; every other 7-bit ASCII character except the
  newline gives the word of exactly that character; on a newline or a byte outside
  ASCII the rule fails.
\<close>

theorem alias_resolution:
  assumes "skip_over s = c # r"
  shows "RuleGrammar_start s =
     (if c = CHR ''F'' then Match MoveForwardRule r
      else if c = CHR ''f'' then Match JumpForwardRule r
      else if c \<noteq> NL \<and> ascii_char c then Match (WordRule [c]) r
      else Fail (c # r))"
  using assms skip_over_head [OF assms]
  by (auto simp: RuleGrammar_start_eq forward_def jump_def)

theorem alias_resolution_witness:
  "skip_over '' Fx'' = CHR ''F'' # ''x'' \<and>
   RuleGrammar_start '' Fx'' = Match MoveForwardRule ''x'' \<and>
   skip_over ''+F'' = CHR ''+'' # ''F'' \<and>
   RuleGrammar_start ''+F'' = Match (WordRule ''+'') ''F''"
  using alias_resolution [of "'' Fx''" "CHR ''F''" "''x''"]
    alias_resolution [of "''+F''" "CHR ''+''" "''F''"]
  by (simp add: ascii_char_def)

section \<open>The range of a probability\<close>

text \<open>
  The claim C7 as it is stated fails: the parser checks no range. A production line
  with the group \<^verbatim>\<open>(2)\<close> parses, and the production stored has the probability 2,
  which is not in the interval from 0 (excluded) to 1.
\<close>

theorem probability_out_of_range:
  "parse probability_two =
     Inr \<lparr>generations = 1, angle = Finite 2, scale = Finite 3, axiom = [MoveForwardRule],
          productions = [MoveForwardRule \<mapsto> [(Finite 2, [MoveForwardRule])]]\<rparr> \<and>
   \<not> ((0 :: rat) < 2 \<and> (2 :: rat) \<le> 1)"
  by (simp add: probability_two_def parser_defs)

text \<open>
  Claim C7, amended. Every production stored in the table of a parsed L-system comes
  from a production line of the input, and its probability is the number read by
  \<^verbatim>\<open>double_\<close> from the parenthesised group of that line, whatever its value, or
  exactly 1 when the line has no group.
\<close>

theorem probability_is_default_or_literal:
  assumes "parse s = Inr l" and "productions l k = Some ps" and "e \<in> set ps"
  shows "\<exists>s' p r a r1.
    suffix s' s \<and> ProductionGrammar_production s' = Match p r \<and>
    k = predcessor p \<and> e = (probability p, successor p) \<and>
    RuleGrammar_start s' = Match a r1 \<and>
    (if prefix ''('' (skip_over r1)
     then \<exists>r2. qi_double (tl (skip_over r1)) = Match (probability p) r2
     else probability p = Finite 1)"
proof -
  from assms(1) obtain r where "LSystemGrammar_sequence s = Match l r"
    by (auto simp: parse_Inr)
  then obtain r9 where
    "suffix r9 s" "ProductionGrammar_start Map.empty r9 = Match (productions l) r"
    using LSystemGrammar_sequence_productions by blast
  then have "from_lines s (productions l)"
    using ProductionGrammar_start_from_lines by blast
  with assms(2,3) obtain s' p r' where
    p: "suffix s' s" "ProductionGrammar_production s' = Match p r'"
      "k = predcessor p" "e = (probability p, successor p)"
    unfolding from_lines_def by blast
  from ProductionGrammar_production_probability [OF p(2)] p show ?thesis
    by blast
qed

theorem probability_is_default_or_literal_witness:
  "parse scenario_B = Inr scenario_B_result \<and>
   productions scenario_B_result MoveForwardRule =
     Some [(Finite (1 / 2),
       [MoveForwardRule, WordRule ''['', WordRule ''+'', MoveForwardRule,
        WordRule '']'', MoveForwardRule])] \<and>
   (\<exists>s' p r a r1.
      suffix s' scenario_B \<and> ProductionGrammar_production s' = Match p r \<and>
      MoveForwardRule = predcessor p \<and>
      (Finite (1 / 2),
       [MoveForwardRule, WordRule ''['', WordRule ''+'', MoveForwardRule,
        WordRule '']'', MoveForwardRule]) = (probability p, successor p) \<and>
      RuleGrammar_start s' = Match a r1 \<and>
      (if prefix ''('' (skip_over r1)
       then \<exists>r2. qi_double (tl (skip_over r1)) = Match (probability p) r2
       else probability p = Finite 1))"
proof -
  have a: "productions scenario_B_result MoveForwardRule =
     Some [(Finite (1 / 2),
       [MoveForwardRule, WordRule ''['', WordRule ''+'', MoveForwardRule,
        WordRule '']'', MoveForwardRule])]"
    by (simp add: scenario_B_result_def)
  show ?thesis
    using probability_is_default_or_literal [OF parse_scenario_B a] a parse_scenario_B
    by simp
qed

section \<open>The header\<close>

text \<open>
  Claim C8. When an input parses, the four header fields are all present in the fixed
  order, each keyword found after spaces and comments only, the values of the result
  are the ones read from the text, the axiom has at least one symbol, and a newline
  ends it. So an input that lacks a field, has the fields in another order or has
  no axiom symbol does not parse, and no default stands in for a field.
\<close>

theorem header_fields_mandatory:
  assumes "parse s = Inr l"
  shows "\<exists>r1 r2 r3 r4 r5 r6 r7 r8 r9.
    skip_over s = ''generations:'' @ r1 \<and> qi_int r1 = Match (generations l) r2 \<and>
    skip_over r2 = ''angle:'' @ r3 \<and> qi_double r3 = Match (angle l) r4 \<and>
    skip_over r4 = ''scale:'' @ r5 \<and> qi_double r5 = Match (scale l) r6 \<and>
    skip_over r6 = ''axiom:'' @ r7 \<and> plus_rule r7 = Match (axiom l) r8 \<and> axiom l \<noteq> [] \<and>
    skip_over r8 = NL # r9"
proof -
  from assms obtain r where "LSystemGrammar_sequence s = Match l r"
    by (auto simp: parse_Inr)
  then show ?thesis
    unfolding LSystemGrammar_sequence_def
    by (auto simp: and_then_Match expect_Match lit_Match lit_char_Match 
        split: result.splits dest: plus_rule_nonempty)
qed

theorem header_fields_mandatory_witness:
  "parse scenario_B = Inr scenario_B_result \<and>
   (\<exists>r1 r2 r3 r4 r5 r6 r7 r8 r9.
    skip_over scenario_B = ''generations:'' @ r1 \<and>
    qi_int r1 = Match (generations scenario_B_result) r2 \<and>
    skip_over r2 = ''angle:'' @ r3 \<and> qi_double r3 = Match (angle scenario_B_result) r4 \<and>
    skip_over r4 = ''scale:'' @ r5 \<and> qi_double r5 = Match (scale scenario_B_result) r6 \<and>
    skip_over r6 = ''axiom:'' @ r7 \<and> plus_rule r7 = Match (axiom scenario_B_result) r8 \<and>
    axiom scenario_B_result \<noteq> [] \<and>
    skip_over r8 = NL # r9)"
  using header_fields_mandatory [OF parse_scenario_B] parse_scenario_B
  by blast

section \<open>The stream overload\<close>

text \<open>
  Claim C9. For every stream whose contents are the text \<open>T\<close>, parsing the stream gives
  exactly what parsing \<open>T\<close> gives: the same L-system when \<open>T\<close> parses, the same error
  when it does not. The stream is read to its end.
\<close>

theorem parse_istream_delegates:
  "LSystemParser_parse_istream T = (LSystemParser_parse T, [])"
  by (simp add: LSystemParser_parse_istream_def read_all_def)

section \<open>A comment that the input ends in\<close>

text \<open>
  The claim C10 as it is stated fails on the characters \<open>F\<close> and \<open>f\<close> and on a byte
  outside 7-bit ASCII. In the successor \<open>F #Fix f\<close> the comment is not closed; its
  \<open>F\<close> and \<open>f\<close> are the built-in rules and no words. After \<open>#a\<close> a byte outside ASCII
  is no symbol at all: the sequence of symbols ends before it.
\<close>

theorem open_comment_not_all_words:
  "ProductionGrammar_production ''F->F #Fix f'' =
     Match \<lparr>predcessor = MoveForwardRule, probability = Finite 1,
        successor = [MoveForwardRule, WordRule ''#'', MoveForwardRule, WordRule ''i'',
          WordRule ''x'', JumpForwardRule]\<rparr> [] \<and>
   plus_loop ''#Fix f'' \<noteq> Match (map WordRuleFactory ''#Fixf'') [] \<and>
   plus_loop (''#a'' @ [CHR 0xE9] @ ''b'') =
     Match [WordRule ''#'', WordRule ''a''] ([CHR 0xE9] @ ''b'')"
  by (simp add: parser_defs WordRuleFactory_def)

text \<open>
  Claim C10, amended. When the input ends inside a comment (no newline after the
  \<open>#\<close>), the skipper does not match, nothing is skipped, and the \<open>#\<close> is parsed as a
  word. A sequence of symbols takes the \<open>#\<close> and the characters after it up to the
  first byte outside 7-bit ASCII, where it ends: the spaces are skipped, \<open>F\<close> is
  the move-forward rule, \<open>f\<close> the jump-forward rule, and every other character the
  word of that character.
\<close>

theorem open_comment_is_symbols:
  assumes "NL \<notin> set body"
  shows "CommentSkipper_start (CHR ''#'' # body) = Fail (CHR ''#'' # body) \<and>
    skip_over (CHR ''#'' # body) = CHR ''#'' # body \<and>
    RuleGrammar_start (CHR ''#'' # body) = Match (WordRule ''#'') body \<and>
    plus_loop (CHR ''#'' # body) =
      Match (WordRule ''#'' #
          map rule_of (filter (\<lambda>c. c \<noteq> CHR '' '') (takeWhile ascii_char body)))
        (dropWhile ascii_char body)"
proof -
  have a: "CommentSkipper_start (CHR ''#'' # body) = Fail (CHR ''#'' # body)"
    using assms by (simp add: CommentSkipper_start_def dropWhile_no_newline)
  have b: "skip_over (CHR ''#'' # body) = CHR ''#'' # body"
    using assms by (rule skip_over_open_comment)
  have c: "RuleGrammar_start (CHR ''#'' # body) = Match (WordRule ''#'') body"
    using b by (simp add: RuleGrammar_start_eq ascii_char_def)
  have d: "plus_loop (CHR ''#'' # body) =
      Match (WordRule ''#'' #
          map rule_of (filter (\<lambda>c. c \<noteq> CHR '' '') (takeWhile ascii_char body)))
        (dropWhile ascii_char body)"
    using plus_loop_open [of "CHR ''#'' # body"] assms
    by (simp add: ascii_char_def rule_of_def WordRuleFactory_def)
  from a b c d show ?thesis
    by blast
qed

theorem open_comment_is_symbols_witness:
  "NL \<notin> set (''Fa '' @ [CHR 0xE9] @ ''b'') \<and>
   CommentSkipper_start (''#Fa '' @ [CHR 0xE9] @ ''b'') = Fail (''#Fa '' @ [CHR 0xE9] @ ''b'') \<and>
   skip_over (''#Fa '' @ [CHR 0xE9] @ ''b'') = ''#Fa '' @ [CHR 0xE9] @ ''b'' \<and>
   RuleGrammar_start (''#Fa '' @ [CHR 0xE9] @ ''b'') =
     Match (WordRule ''#'') (''Fa '' @ [CHR 0xE9] @ ''b'') \<and>
   plus_loop (''#Fa '' @ [CHR 0xE9] @ ''b'') =
     Match [WordRule ''#'', MoveForwardRule, WordRule ''a''] ([CHR 0xE9] @ ''b'')"
proof -
  have n: "NL \<notin> set (''Fa '' @ [CHR 0xE9] @ ''b'')"
    by simp
  from open_comment_is_symbols [OF n] n show ?thesis
    by (simp add: ascii_char_def rule_of_def WordRuleFactory_def forward_def)
qed

section \<open>Comments between tokens\<close>

text \<open>
  A position that is open from \<open>r\<close>: the skip that starts at \<open>r\<close> stops there on its
  way, or it lies after that skip. A position inside a comment that starts the text
  is not.
\<close>

definition exposed :: "string \<Rightarrow> string \<Rightarrow> bool" where
  "exposed r y \<longleftrightarrow> y \<in> set (skip_points r) \<or> suffix y (skip_over r)"

text \<open>
  What a comment \<open>z\<close> put before \<open>y\<close> does to a parser that matched: \<open>res\<close> is its
  result on the text, \<open>res'\<close> its result on the text with the comment, \<open>pts\<close> the
  positions between its tokens. At one of these the result is the same; elsewhere
  the parser ends before \<open>y\<close> and the comment is still in what it leaves, or it has
  been skipped.
\<close>

definition transparent :: "string \<Rightarrow> string \<Rightarrow> string list \<Rightarrow> 'a result \<Rightarrow> 'a result \<Rightarrow> bool" where
  "transparent z y pts res res' \<longleftrightarrow>
     (\<forall>a r. res = Match a r \<longrightarrow>
        (if y \<in> set pts then res' = Match a r
         else (\<forall>k. r = k @ y \<longrightarrow> exposed r y \<longrightarrow>
                 res' = Match a r \<or> res' = Match a (k @ z @ y))))"

























lemma and_then_Match_simp [simp]: "and_then (Match a r) f = f a r"
  by (simp add: and_then_def)


























































































text \<open>
  The list of productions ends where a newline or a production fails, and goes back
  there; a comment at a position between the tokens of the productions it has taken
  leaves its result as it is.
\<close>

definition steady :: "string \<Rightarrow> string \<Rightarrow> string list \<Rightarrow> 'a result \<Rightarrow> 'a result \<Rightarrow> bool" where
  "steady z y pts res res' \<longleftrightarrow> (\<forall>a r. res = Match a r \<longrightarrow> y \<in> set pts \<longrightarrow> res' = Match a r)"


lemma transparent_steady: "transparent z y pts res res' \<Longrightarrow> steady z y pts res res'"
  unfolding steady_def transparent_def by metis



















lemmas points_defs =
  parse_points_def start_points_def production_points_def probability_points_def
  seq_points_def skip_points.simps plus_points.simps list_points.simps
  CommentSkipper_start_def

text \<open>
  The positions between the tokens of a short document: before each keyword, number,
  symbol, newline and arrow, and after each space that is skipped there.
\<close>

lemma parse_points_example:
  "parse_points (''generations:1 angle:2 scale:3 axiom:F'' @ [NL] @ ''F->f'') =
     [''generations:1 angle:2 scale:3 axiom:F'' @ [NL] @ ''F->f'',
      ''1 angle:2 scale:3 axiom:F'' @ [NL] @ ''F->f'',
      '' angle:2 scale:3 axiom:F'' @ [NL] @ ''F->f'',
      ''angle:2 scale:3 axiom:F'' @ [NL] @ ''F->f'',
      ''2 scale:3 axiom:F'' @ [NL] @ ''F->f'',
      '' scale:3 axiom:F'' @ [NL] @ ''F->f'',
      ''scale:3 axiom:F'' @ [NL] @ ''F->f'',
      ''3 axiom:F'' @ [NL] @ ''F->f'',
      '' axiom:F'' @ [NL] @ ''F->f'',
      ''axiom:F'' @ [NL] @ ''F->f'',
      ''F'' @ [NL] @ ''F->f'',
      [NL] @ ''F->f'',
      ''F->f'',
      ''->f'',
      ''f'']"
  by (simp add: points_defs parser_defs)




end
